theory Spec2Isabelle
  imports Main "HOL-Library.AList" "HOL-Library.Sublist" "HOL-Library.Multiset"
begin

section \<open>The signature trie of scripts/hiddenapi/signature\_trie.py\<close>

subsection \<open>Python string primitives used by the source\<close>

text \<open>
  A Python \<open>str\<close> is taken as the list of the bytes of its UTF-8 encoding. The source
  cuts and compares texts only at the ASCII markers \<open>L\<close>, \<open>;->\<close>, \<open>/\<close>, \<open>$\<close>, \<open>*\<close> and
  at the prefixes it adds itself, and an ASCII byte never lies inside the encoding of
  another character, so the pieces are the same either way.

  \<open>str.removeprefix(p)\<close>: drops \<open>p\<close> once when the text starts with it.
\<close>

definition removeprefix :: "string \<Rightarrow> string \<Rightarrow> string" where
  "removeprefix p s = (if prefix p s then drop (length p) s else s)"

text \<open>
  \<open>str.startswith(p)\<close>.
\<close>

definition startswith :: "string \<Rightarrow> string \<Rightarrow> bool" where
  "startswith s p = prefix p s"

text \<open>
  \<open>str.split(sep)\<close> for a non-empty separator: the text is scanned from the left and
  cut at every occurrence of \<open>sep\<close>, the scan going on behind the occurrence; a
  character that starts no occurrence joins the first piece of what follows. The result
  is never empty (\<open>"".split("/")\<close> is \<open>[""]\<close>), so the \<open>[]\<close> branch below is never
  taken. The source only calls it with the non-empty separators \<open>";->"\<close>, \<open>"/"\<close> and
  \<open>"$"\<close> (Python raises \<open>ValueError\<close> for an empty one).
\<close>

fun split :: "string \<Rightarrow> string \<Rightarrow> string list" where
  "split sep [] = [[]]"
| "split sep (c # cs) =
     (if prefix sep (c # cs) then [] # split sep (drop (length sep - 1) cs)
      else (case split sep cs of [] \<Rightarrow> [[c]] | p # ps \<Rightarrow> (c # p) # ps))"

text \<open>
  \<open>sep.join(parts)\<close>, to say how the pieces that \<open>split\<close> returns make up the text.
\<close>

fun join :: "string \<Rightarrow> string list \<Rightarrow> string" where
  "join sep [] = []"
| "join sep [x] = x"
| "join sep (x # y # ys) = x @ sep @ join sep (y # ys)"

subsection \<open>Nodes and errors\<close>

text \<open>
  A node is an \<open>InteriorNode\<close> with its attribute \<open>nodes\<close> (a Python dict, kept as an
  association list in insertion order) or a \<open>Leaf\<close> with its attribute \<open>value\<close>.
\<close>

datatype 'v node = InteriorNode "(string \<times> 'v node) list" | Leaf 'v

text \<open>
  The source raises a plain \<open>Exception\<close> in three places, told apart by their message:
  "contains wildcard ... and member signature" (\<open>MalformedPattern\<close>), "does not identify
  a specific member" (\<open>InvalidMemberSignature\<close>) and "Duplicate signature"
  (\<open>DuplicateSignature\<close>). Reading the attribute \<open>nodes\<close> of a \<open>Leaf\<close> raises Python's
  \<open>AttributeError\<close>.
\<close>

datatype error = MalformedPattern | InvalidMemberSignature | DuplicateSignature | AttributeError

text \<open>
  \<open>signature_trie()\<close> returns a fresh \<open>InteriorNode()\<close>, whose dict is empty.
\<close>

definition signature_trie :: "'v node" where
  "signature_trie = InteriorNode []"

subsection \<open>\<open>InteriorNode.signature_to_elements\<close>\<close>

text \<open>
  \<open>parts[0]\<close> and \<open>elements[-1]\<close> always exist, since \<open>split\<close> never returns the empty
  list; \<open>parts[1:]\<close> and \<open>elements[0:-1]\<close> are \<open>tl\<close> and \<open>butlast\<close>.
\<close>

definition signature_to_elements :: "string \<Rightarrow> error + string list" where
  "signature_to_elements signature =
     (let text = removeprefix ''L'' signature;
          parts = split '';->'' text;
          member = tl parts;
          elements = split ''/'' (hd parts);
          packages = butlast elements;
          class_name = last elements
      in if class_name = ''*'' \<or> class_name = ''**'' then
           (if length member \<noteq> 0 then Inl MalformedPattern
            else Inr (map (\<lambda>x. ''package:'' @ x) packages @ [class_name]))
         else
           (let classes = split ''$'' class_name
            in Inr (map (\<lambda>x. ''package:'' @ x) packages
                    @ map (\<lambda>x. ''class:'' @ x) classes
                    @ map (\<lambda>x. ''member:'' @ x) member)))"

subsection \<open>\<open>InteriorNode.add\<close>\<close>

text \<open>
  \<open>add_walk\<close> is the loop over \<open>elements[:-1]\<close> followed by the two checks on
  \<open>last_element\<close> and the assignment of the new \<open>Leaf\<close>. The source mutates the dicts in
  place while it walks, so the node is returned together with the outcome, also when the
  call raises. \<open>element in node.nodes\<close> raises \<open>AttributeError\<close> when the walk has arrived
  at a \<open>Leaf\<close>. An assignment \<open>d[k] = x\<close> keeps the place of a key that is there and puts
  a new key last, as \<open>AList.update\<close> does. \<open>add\<close> is a method of \<open>InteriorNode\<close> only: on a
  \<open>Leaf\<close> the attribute lookup itself raises.
\<close>

fun add_walk :: "'v node \<Rightarrow> string list \<Rightarrow> string \<Rightarrow> 'v \<Rightarrow> (error + unit) \<times> 'v node" where
  "add_walk node [] last_element v =
     (if \<not> startswith last_element ''member:'' then (Inl InvalidMemberSignature, node)
      else (case node of
              Leaf x \<Rightarrow> (Inl AttributeError, node)
            | InteriorNode nodes \<Rightarrow>
                (if map_of nodes last_element \<noteq> None then (Inl DuplicateSignature, node)
                 else (Inr (), InteriorNode (AList.update last_element (Leaf v) nodes)))))"
| "add_walk node (element # rest) last_element v =
     (case node of
        Leaf x \<Rightarrow> (Inl AttributeError, node)
      | InteriorNode nodes \<Rightarrow>
          (case map_of nodes element of
             Some child \<Rightarrow>
               (let (r, child') = add_walk child rest last_element v
                in (r, InteriorNode (AList.update element child' nodes)))
           | None \<Rightarrow>
               (let (r, next_node) = add_walk (InteriorNode []) rest last_element v
                in (r, InteriorNode (AList.update element next_node nodes)))))"

fun add :: "'v node \<Rightarrow> string \<Rightarrow> 'v \<Rightarrow> (error + unit) \<times> 'v node" where
  "add (Leaf x) signature v = (Inl AttributeError, Leaf x)"
| "add (InteriorNode nodes) signature v =
     (case signature_to_elements signature of
        Inl e \<Rightarrow> (Inl e, InteriorNode nodes)
      | Inr elements \<Rightarrow> add_walk (InteriorNode nodes) (butlast elements) (last elements) v)"

subsection \<open>\<open>values\<close> and \<open>append_values\<close>\<close>

text \<open>
  \<open>append_values\<close> appends to the list \<open>values\<close> it is given; the list is passed in
  and returned. A \<open>Leaf\<close> ignores the selector.
\<close>

fun append_values :: "'v node \<Rightarrow> 'v list list \<Rightarrow> (string \<Rightarrow> bool) \<Rightarrow> 'v list list" where
  "append_values (Leaf x) values selector = values @ [[x]]"
| "append_values (InteriorNode nodes) values selector =
     fold (\<lambda>item values. if selector (fst item)
                          then append_values (snd item) values (\<lambda>x. True) else values)
          nodes values"

fun values_of :: "'v node \<Rightarrow> (string \<Rightarrow> bool) \<Rightarrow> 'v list list" where
  "values_of (Leaf x) selector = [[x]]"
| "values_of (InteriorNode nodes) selector = append_values (InteriorNode nodes) [] selector"

subsection \<open>\<open>InteriorNode.get_matching_rows\<close>\<close>

text \<open>
  \<open>walk\<close> is the loop \<open>for element in elements\<close>: \<open>Inr None\<close> is the early
  \<open>return []\<close>. \<open>get_matching_rows\<close> assigns to no attribute of any node; it returns its
  rows together with the trie it was given.
\<close>

fun walk :: "'v node \<Rightarrow> string list \<Rightarrow> error + 'v node option" where
  "walk node [] = Inr (Some node)"
| "walk node (element # rest) =
     (case node of
        Leaf x \<Rightarrow> Inl AttributeError
      | InteriorNode nodes \<Rightarrow>
          (case map_of nodes element of
             Some child \<Rightarrow> walk child rest
           | None \<Rightarrow> Inr None))"

fun get_matching_rows :: "'v node \<Rightarrow> string \<Rightarrow> (error + 'v list) \<times> 'v node" where
  "get_matching_rows (Leaf x) pattern = (Inl AttributeError, Leaf x)"
| "get_matching_rows (InteriorNode nodes) pattern =
     (case signature_to_elements pattern of
        Inl e \<Rightarrow> (Inl e, InteriorNode nodes)
      | Inr elements \<Rightarrow>
          (let last_element = last elements;
               wild = (last_element = ''*'' \<or> last_element = ''**'');
               elements' = (if wild then butlast elements else elements);
               selector = (if last_element = ''*''
                           then (\<lambda>x. \<not> startswith x ''package:'') else (\<lambda>x. True))
           in (case walk (InteriorNode nodes) elements' of
                 Inl e \<Rightarrow> (Inl e, InteriorNode nodes)
               | Inr None \<Rightarrow> (Inr [], InteriorNode nodes)
               | Inr (Some node) \<Rightarrow> (Inr (concat (values_of node selector)), InteriorNode nodes))))"

subsection \<open>\<open>get_matching_rows\<close> over a store of objects\<close>

text \<open>
  To speak of what a query writes, the nodes are also taken as Python has them: objects
  in a store, referred to by address. An \<open>InteriorNode\<close> object holds its dict, from key
  to the address of the child; a \<open>Leaf\<close> object holds its value; the list \<open>values\<close> that
  \<open>InteriorNode.values\<close> creates and \<open>append_values\<close> appends to is an object as well. The
  store is the list of all objects, a new object gets the next address, and \<open>deref\<close>
  reads an address (\<open>None\<close> for an address that holds nothing, which no Python reference
  does).

  The recursion of \<open>append_values\<close> follows addresses, so it takes fuel: \<open>None\<close> stands
  for fuel that ran out (or a reference that is no node). \<open>append_items_h\<close> is the loop
  \<open>for key, node in self.nodes.items()\<close>. \<open>Leaf.append_values\<close> is the one place that
  writes to the store: \<open>values.append([self.value])\<close>.
\<close>

type_synonym addr = nat

datatype 'v obj = InteriorObj "(string \<times> addr) list" | LeafObj 'v | ListObj "'v list list"

type_synonym 'v heap = "'v obj list"

definition deref :: "'v heap \<Rightarrow> addr \<Rightarrow> 'v obj option" where
  "deref h a = (if a < length h then Some (h ! a) else None)"

fun append_values_h :: "nat \<Rightarrow> 'v heap \<Rightarrow> addr \<Rightarrow> addr \<Rightarrow> (string \<Rightarrow> bool) \<Rightarrow> 'v heap option"
  and append_items_h :: "nat \<Rightarrow> 'v heap \<Rightarrow> (string \<times> addr) list \<Rightarrow> addr \<Rightarrow> (string \<Rightarrow> bool) \<Rightarrow> 'v heap option"
where
  "append_values_h 0 h self vals selector = None"
| "append_values_h (Suc fuel) h self vals selector =
     (case deref h self of
        Some (LeafObj x) \<Rightarrow>
          (case deref h vals of
             Some (ListObj vs) \<Rightarrow> Some (h[vals := ListObj (vs @ [[x]])])
           | _ \<Rightarrow> None)
      | Some (InteriorObj items) \<Rightarrow> append_items_h fuel h items vals selector
      | _ \<Rightarrow> None)"
| "append_items_h fuel h [] vals selector = Some h"
| "append_items_h fuel h (item # rest) vals selector =
     (if selector (fst item)
      then (case append_values_h fuel h (snd item) vals (\<lambda>x. True) of
              None \<Rightarrow> None
            | Some h' \<Rightarrow> append_items_h fuel h' rest vals selector)
      else append_items_h fuel h rest vals selector)"

fun values_h :: "nat \<Rightarrow> 'v heap \<Rightarrow> addr \<Rightarrow> (string \<Rightarrow> bool) \<Rightarrow> ('v list list \<times> 'v heap) option" where
  "values_h fuel h self selector =
     (case deref h self of
        Some (LeafObj x) \<Rightarrow> Some ([[x]], h)
      | Some (InteriorObj items) \<Rightarrow>
          (let vals = length h; h1 = h @ [ListObj []]
           in (case append_values_h fuel h1 self vals selector of
                 None \<Rightarrow> None
               | Some h2 \<Rightarrow>
                   (case deref h2 vals of
                      Some (ListObj vs) \<Rightarrow> Some (vs, h2)
                    | _ \<Rightarrow> None)))
      | _ \<Rightarrow> None)"

fun walk_h :: "'v heap \<Rightarrow> addr \<Rightarrow> string list \<Rightarrow> (error + addr option) option" where
  "walk_h h node [] = Some (Inr (Some node))"
| "walk_h h node (element # rest) =
     (case deref h node of
        Some (InteriorObj items) \<Rightarrow>
          (case map_of items element of
             Some child \<Rightarrow> walk_h h child rest
           | None \<Rightarrow> Some (Inr None))
      | Some (LeafObj x) \<Rightarrow> Some (Inl AttributeError)
      | _ \<Rightarrow> None)"

definition get_matching_rows_h ::
  "nat \<Rightarrow> 'v heap \<Rightarrow> addr \<Rightarrow> string \<Rightarrow> ((error + 'v list) \<times> 'v heap) option" where
  "get_matching_rows_h fuel h self pattern =
     (case deref h self of
        Some (InteriorObj items) \<Rightarrow>
          (case signature_to_elements pattern of
             Inl e \<Rightarrow> Some (Inl e, h)
           | Inr elements \<Rightarrow>
               (let last_element = last elements;
                    wild = (last_element = ''*'' \<or> last_element = ''**'');
                    elements' = (if wild then butlast elements else elements);
                    selector = (if last_element = ''*''
                                then (\<lambda>x. \<not> startswith x ''package:'') else (\<lambda>x. True))
                in (case walk_h h self elements' of
                      None \<Rightarrow> None
                    | Some (Inl e) \<Rightarrow> Some (Inl e, h)
                    | Some (Inr None) \<Rightarrow> Some (Inr [], h)
                    | Some (Inr (Some node)) \<Rightarrow>
                        (case values_h fuel h node selector of
                           None \<Rightarrow> None
                         | Some (vs, h') \<Rightarrow> Some (Inr (concat vs), h')))))
      | Some (LeafObj x) \<Rightarrow> Some (Inl AttributeError, h)
      | _ \<Rightarrow> None)"

subsection \<open>Notions used to state the properties\<close>

text \<open>
  All the values associated with a node and all its descendant nodes: what
  \<open>values\<close> yields under the selector that accepts every key, flattened as
  \<open>chain.from_iterable\<close> does.
\<close>

definition subtree_values :: "'v node \<Rightarrow> 'v list" where
  "subtree_values node = concat (values_of node (\<lambda>x. True))"

text \<open>
  What \<open>get_matching_rows\<close> answers once the elements to walk and the selector are fixed.
\<close>

definition rows :: "'v node \<Rightarrow> string list \<Rightarrow> (string \<Rightarrow> bool) \<Rightarrow> error + 'v list" where
  "rows node elements selector =
     (case walk node elements of
        Inl e \<Rightarrow> Inl e
      | Inr None \<Rightarrow> Inr []
      | Inr (Some m) \<Rightarrow> Inr (concat (values_of m selector)))"

text \<open>
  A Python dict holds each key once: the keys of every \<open>nodes\<close> list are distinct.
\<close>

fun distinct_keys :: "'v node \<Rightarrow> bool" where
  "distinct_keys (Leaf x) = True"
| "distinct_keys (InteriorNode nodes) =
     (distinct (map fst nodes) \<and> list_all (\<lambda>item. distinct_keys (snd item)) nodes)"

text \<open>
  \<open>add\<close> puts a \<open>Leaf\<close> only under a key that starts with \<open>member:\<close>.
\<close>

fun leaves_under_members :: "'v node \<Rightarrow> bool" where
  "leaves_under_members (Leaf x) = True"
| "leaves_under_members (InteriorNode nodes) =
     list_all (\<lambda>item. (case snd item of Leaf x \<Rightarrow> startswith (fst item) ''member:''
                                | InteriorNode ns \<Rightarrow> True)
                      \<and> leaves_under_members (snd item)) nodes"

text \<open>
  A caller that issues a sequence of \<open>add\<close> calls and carries on after a call that
  raises: the final trie, and the values whose call returned normally.
\<close>

fun add_all :: "'v node \<Rightarrow> (string \<times> 'v) list \<Rightarrow> 'v node \<times> 'v list" where
  "add_all t [] = (t, [])"
| "add_all t (sv # rest) =
     (case add t (fst sv) (snd sv) of
        (Inr u, t') \<Rightarrow> (case add_all t' rest of (t'', vs) \<Rightarrow> (t'', snd sv # vs))
      | (Inl e, t') \<Rightarrow> add_all t' rest)"

text \<open>
  The entries of a trie: for every leaf, the keys on the way to it and its value, in the
  order of the dicts. This is what the trie stores, said without the functions that walk
  it.
\<close>

fun entries :: "'v node \<Rightarrow> (string list \<times> 'v) list" where
  "entries (Leaf x) = [([], x)]"
| "entries (InteriorNode nodes) =
     concat (map (\<lambda>item. map (\<lambda>e. (fst item # fst e, snd e)) (entries (snd item))) nodes)"

text \<open>
  The signatures and the class patterns of the grammar, built from their parts: the
  package names, the class names from the outermost to the innermost, and the member.
\<close>

definition member_signature :: "string list \<Rightarrow> string list \<Rightarrow> string \<Rightarrow> string" where
  "member_signature pkgs classes m =
     ''L'' @ join ''/'' (pkgs @ [join ''$'' classes]) @ '';->'' @ m"

definition class_pattern :: "string list \<Rightarrow> string list \<Rightarrow> string" where
  "class_pattern pkgs classes = ''L'' @ join ''/'' (pkgs @ [join ''$'' classes])"

text \<open>
  The store \<open>h\<close> holds the trie \<open>t\<close> at address \<open>a\<close>: the object at \<open>a\<close> is a leaf with
  the same value, or an interior node whose dict has the same keys in the same order and
  whose children hold the subtries.
\<close>

inductive repr :: "'v heap \<Rightarrow> addr \<Rightarrow> 'v node \<Rightarrow> bool" for h :: "'v heap" where
  repr_Leaf: "deref h a = Some (LeafObj x) \<Longrightarrow> repr h a (Leaf x)"
| repr_Interior: "deref h a = Some (InteriorObj items)
     \<Longrightarrow> list_all2 (\<lambda>it nd. fst it = fst nd \<and> repr h (snd it) (snd nd)) items nodes
     \<Longrightarrow> repr h a (InteriorNode nodes)"

text \<open>
  The number of nodes on the longest path from a node down to a leaf: the fuel that
  \<open>append_values\<close> needs.
\<close>

fun height :: "'v node \<Rightarrow> nat" where
  "height (Leaf x) = 1"
| "height (InteriorNode nodes) = Suc (foldr max (map (\<lambda>item. height (snd item)) nodes) 0)"

section \<open>Basic facts\<close>

subsection \<open>Strings\<close>

lemma split_not_Nil: "split sep s \<noteq> []"
  by (induction sep s rule: split.induct) (simp_all split: list.split)

lemma signature_to_elements_not_Nil:
  "signature_to_elements s = Inr elements \<Longrightarrow> elements \<noteq> []"
  unfolding signature_to_elements_def Let_def
  by (auto simp: split_not_Nil split: if_splits)

lemma member_not_wildcard:
  "startswith l ''member:'' \<Longrightarrow> l \<noteq> ''*'' \<and> l \<noteq> ''**''"
  by (auto simp: startswith_def)

subsection \<open>Unfolding \<open>add_walk\<close>\<close>

lemma add_walk_Nil_Inr:
  "add_walk n [] l v = (Inr (), n') \<longleftrightarrow>
     startswith l ''member:'' \<and>
     (\<exists>nodes. n = InteriorNode nodes \<and> map_of nodes l = None \<and>
        n' = InteriorNode (AList.update l (Leaf v) nodes))"
  by (cases n) auto

lemma add_walk_Cons:
  "add_walk (InteriorNode nodes) (e # es) l v =
     (fst (add_walk (case map_of nodes e of Some child \<Rightarrow> child | None \<Rightarrow> InteriorNode []) es l v),
      InteriorNode (AList.update e
        (snd (add_walk (case map_of nodes e of Some child \<Rightarrow> child | None \<Rightarrow> InteriorNode []) es l v))
        nodes))"
  by (simp split: option.split prod.split)

lemma add_walk_Leaf: "add_walk (Leaf x) (e # es) l v = (Inl AttributeError, Leaf x)"
  by simp

lemma add_walk_kind:
  "add_walk (InteriorNode nodes) es l v = (r, n') \<Longrightarrow> \<exists>nodes'. n' = InteriorNode nodes'"
proof (cases es)
  case Nil
  assume "add_walk (InteriorNode nodes) es l v = (r, n')"
  with Nil show ?thesis by (auto split: if_splits)
next
  case (Cons e es')
  assume "add_walk (InteriorNode nodes) es l v = (r, n')"
  with Cons show ?thesis by (simp only: add_walk_Cons) blast
qed

lemma add_Inr_D:
  assumes "add t s v = (Inr (), t')"
  obtains nodes elements where "t = InteriorNode nodes"
    "signature_to_elements s = Inr elements"
    "add_walk (InteriorNode nodes) (butlast elements) (last elements) v = (Inr (), t')"
proof (cases t)
  case (Leaf x)
  with assms show ?thesis by simp
next
  case (InteriorNode nodes)
  show ?thesis
  proof (cases "signature_to_elements s")
    case (Inl e)
    with assms InteriorNode show ?thesis by simp
  next
    case (Inr elements)
    with assms InteriorNode that show ?thesis by simp
  qed
qed

lemma add_walk_member:
  "add_walk n es l v = (Inr (), n') \<Longrightarrow> startswith l ''member:''"
proof (induction es arbitrary: n n')
  case Nil
  then show ?case by (simp only: add_walk_Nil_Inr)
next
  case (Cons e es)
  show ?case
  proof (cases n)
    case (Leaf x)
    with Cons.prems show ?thesis by simp
  next
    case (InteriorNode nodes)
    let ?c = "case map_of nodes e of Some child \<Rightarrow> child | None \<Rightarrow> InteriorNode []"
    from Cons.prems InteriorNode have "fst (add_walk ?c es l v) = Inr ()"
      by (simp only: add_walk_Cons) simp
    then have "add_walk ?c es l v = (Inr (), snd (add_walk ?c es l v))"
      by (metis prod.collapse)
    then show ?thesis by (rule Cons.IH)
  qed
qed

lemma add_walk_then_walk:
  "add_walk n es l v = (Inr (), n') \<Longrightarrow> walk n' (es @ [l]) = Inr (Some (Leaf v))"
proof (induction es arbitrary: n n')
  case Nil
  then show ?case by (simp only: add_walk_Nil_Inr) (auto simp: update_conv')
next
  case (Cons e es)
  show ?case
  proof (cases n)
    case (Leaf x)
    with Cons.prems show ?thesis by simp
  next
    case (InteriorNode nodes)
    let ?c = "case map_of nodes e of Some child \<Rightarrow> child | None \<Rightarrow> InteriorNode []"
    from Cons.prems InteriorNode have f: "fst (add_walk ?c es l v) = Inr ()"
      and n': "n' = InteriorNode (AList.update e (snd (add_walk ?c es l v)) nodes)"
      by (simp_all only: add_walk_Cons) simp_all
    from f have "add_walk ?c es l v = (Inr (), snd (add_walk ?c es l v))"
      by (metis prod.collapse)
    then have "walk (snd (add_walk ?c es l v)) (es @ [l]) = Inr (Some (Leaf v))"
      by (rule Cons.IH)
    then show ?thesis by (simp add: n' update_conv')
  qed
qed

lemma gmr_walk_leaf:
  assumes "signature_to_elements s = Inr elements"
    and "last elements \<noteq> ''*''" and "last elements \<noteq> ''**''"
    and "walk (InteriorNode nodes) elements = Inr (Some (Leaf v))"
  shows "fst (get_matching_rows (InteriorNode nodes) s) = Inr [v]"
  using assms by (simp add: Let_def)

lemma add_then_rows:
  assumes "add t s v = (Inr (), t')"
  shows "fst (get_matching_rows t' s) = Inr [v]"
proof -
  from assms obtain nodes elements where t: "t = InteriorNode nodes"
    and els: "signature_to_elements s = Inr elements"
    and aw: "add_walk (InteriorNode nodes) (butlast elements) (last elements) v = (Inr (), t')"
    by (rule add_Inr_D)
  from add_walk_kind[OF aw] obtain nodes' where t': "t' = InteriorNode nodes'" ..
  have ne: "elements \<noteq> []" using els by (rule signature_to_elements_not_Nil)
  have mem: "startswith (last elements) ''member:''" using aw by (rule add_walk_member)
  have "walk t' (butlast elements @ [last elements]) = Inr (Some (Leaf v))"
    using aw by (rule add_walk_then_walk)
  then have w: "walk (InteriorNode nodes') elements = Inr (Some (Leaf v))"
    unfolding t' append_butlast_last_id[OF ne] .
  have nw1: "last elements \<noteq> ''*''" using member_not_wildcard[OF mem] by (rule conjunct1)
  have nw2: "last elements \<noteq> ''**''" using member_not_wildcard[OF mem] by (rule conjunct2)
  from els nw1 nw2 w show ?thesis unfolding t' by (rule gmr_walk_leaf)
qed

lemma eval_els_Foo:
  "signature_to_elements ''Lpkg/Foo;->m()V'' = Inr [''package:pkg'', ''class:Foo'', ''member:m()V'']"
  by (simp add: signature_to_elements_def removeprefix_def Let_def)

lemma eval_add_Foo:
  "add signature_trie ''Lpkg/Foo;->m()V'' v =
     (Inr (), InteriorNode [(''package:pkg'', InteriorNode [(''class:Foo'',
        InteriorNode [(''member:m()V'', Leaf v)])])])"
  by (simp add: signature_trie_def eval_els_Foo add_walk_Cons startswith_def)

lemma walk_then_add_walk_dup:
  "walk n (es @ [l]) = Inr (Some m) \<Longrightarrow> startswith l ''member:''
     \<Longrightarrow> add_walk n es l v = (Inl DuplicateSignature, n)"
proof (induction es arbitrary: n)
  case Nil
  then show ?case by (cases n) (auto split: option.splits)
next
  case (Cons e es)
  show ?case
  proof (cases n)
    case (Leaf x)
    with Cons.prems show ?thesis by simp
  next
    case (InteriorNode nodes)
    with Cons.prems obtain child where c: "map_of nodes e = Some child"
      and w: "walk child (es @ [l]) = Inr (Some m)"
      by (cases "map_of nodes e") auto
    from w Cons.prems(2) have "add_walk child es l v = (Inl DuplicateSignature, child)"
      by (rule Cons.IH)
    then show ?thesis
      unfolding InteriorNode add_walk_Cons c by (simp add: update_triv[OF c])
  qed
qed

lemma eval_els_Foo_bare:
  "signature_to_elements ''pkg/Foo;->m()V'' = signature_to_elements ''Lpkg/Foo;->m()V''"
  by (simp add: signature_to_elements_def removeprefix_def Let_def)

subsection \<open>Collected values\<close>

lemma fold_append_acc:
  assumes "\<And>x a. x \<in> set xs \<Longrightarrow> f x a = a @ f x []"
  shows "fold f xs acc = acc @ concat (map (\<lambda>x. f x []) xs)"
  using assms
proof (induction xs arbitrary: acc)
  case Nil
  show ?case by simp
next
  case (Cons x xs)
  have tl: "f y a = a @ f y []" if "y \<in> set xs" for y a
  proof (rule Cons.prems)
    from that show "y \<in> set (x # xs)" by simp
  qed
  have hd: "f x acc = acc @ f x []"
  proof (rule Cons.prems)
    show "x \<in> set (x # xs)" by simp
  qed
  have "fold f (x # xs) acc = fold f xs (f x acc)" by simp
  also have "\<dots> = f x acc @ concat (map (\<lambda>x. f x []) xs)"
    using tl by (rule Cons.IH)
  finally show ?case unfolding hd by simp
qed

lemma append_values_acc:
  "append_values n acc sel = acc @ append_values n [] sel"
proof (induction n acc sel rule: append_values.induct)
  case (1 x "values" selector)
  show ?case by simp
next
  case (2 nodes "values" selector)
  let ?f = "\<lambda>item values. if selector (fst item)
              then append_values (snd item) values (\<lambda>x. True) else values"
  have step: "?f x a = a @ ?f x []" if "x \<in> set nodes" for x a
  proof (cases "selector (fst x)")
    case True
    with that have "append_values (snd x) a (\<lambda>x. True) = a @ append_values (snd x) [] (\<lambda>x. True)"
      by (rule "2.IH")
    with True show ?thesis by simp
  next
    case False
    then show ?thesis by simp
  qed
  have "fold ?f nodes values = values @ concat (map (\<lambda>x. ?f x []) nodes)"
    using step by (rule fold_append_acc)
  moreover have "fold ?f nodes [] = [] @ concat (map (\<lambda>x. ?f x []) nodes)"
    using step by (rule fold_append_acc)
  ultimately show ?case by simp
qed

lemma values_of_append_values: "values_of n sel = append_values n [] sel"
  by (cases n) simp_all

lemma values_of_Interior:
  "values_of (InteriorNode nodes) sel =
     concat (map (\<lambda>item. if sel (fst item) then values_of (snd item) (\<lambda>x. True) else []) nodes)"
proof -
  let ?f = "\<lambda>item values. if sel (fst item)
              then append_values (snd item) values (\<lambda>x. True) else values"
  have "?f x a = a @ ?f x []" for x :: "string \<times> 'a node" and a
    by (cases "sel (fst x)") (simp_all add: append_values_acc[of "snd x" a])
  then have "fold ?f nodes [] = [] @ concat (map (\<lambda>x. ?f x []) nodes)"
    by (rule fold_append_acc)
  then show ?thesis by (simp add: values_of_append_values cong: if_cong)
qed

lemma rows_Interior:
  "concat (values_of (InteriorNode nodes) sel) =
     concat (map (\<lambda>item. subtree_values (snd item)) (filter (\<lambda>item. sel (fst item)) nodes))"
  unfolding values_of_Interior subtree_values_def
  by (induction nodes) simp_all

lemma subtree_values_Leaf: "subtree_values (Leaf x) = [x]"
  by (simp add: subtree_values_def)

lemma subtree_values_Interior:
  "subtree_values (InteriorNode nodes) = concat (map (\<lambda>item. subtree_values (snd item)) nodes)"
  using rows_Interior[of nodes "\<lambda>x. True"] by (simp add: subtree_values_def)

subsection \<open>Assignments to a dict\<close>

lemma update_absent: "map_of al k = None \<Longrightarrow> AList.update k c al = al @ [(k, c)]"
  by (induction al) (auto split: if_splits)

lemma update_present:
  "map_of al k = Some c \<Longrightarrow>
     \<exists>pre post. al = pre @ (k, c) # post \<and> AList.update k c' al = pre @ (k, c') # post"
proof (induction al)
  case Nil
  then show ?case by simp
next
  case (Cons a al)
  show ?case
  proof (cases "fst a = k")
    case True
    with Cons.prems have "a = (k, c)" by (cases a) simp
    then have "a # al = [] @ (k, c) # al \<and> AList.update k c' (a # al) = [] @ (k, c') # al"
      by simp
    then show ?thesis by blast
  next
    case False
    with Cons.prems have "map_of al k = Some c" by (cases a) simp
    then obtain pre post where "al = pre @ (k, c) # post"
      "AList.update k c' al = pre @ (k, c') # post"
      using Cons.IH by blast
    with False have "a # al = (a # pre) @ (k, c) # post
      \<and> AList.update k c' (a # al) = (a # pre) @ (k, c') # post"
      by (cases a) simp
    then show ?thesis by blast
  qed
qed

subsection \<open>\<open>rows\<close>\<close>

lemma rows_Nil: "rows n [] sel = Inr (concat (values_of n sel))"
  by (simp add: rows_def)

lemma rows_Leaf_Cons: "rows (Leaf x) (p # ps) sel = Inl AttributeError"
  by (simp add: rows_def)

lemma rows_Cons:
  "rows (InteriorNode nodes) (p # ps) sel =
     (case map_of nodes p of Some child \<Rightarrow> rows child ps sel | None \<Rightarrow> Inr [])"
  by (simp add: rows_def split: option.split)

lemma rows_empty: "rows (InteriorNode []) ps sel = Inr []"
  by (cases ps) (simp_all add: rows_Nil rows_Cons)

lemma gmr_rows:
  assumes "signature_to_elements p = Inr elements"
  shows "fst (get_matching_rows (InteriorNode nodes) p) =
     rows (InteriorNode nodes)
       (if last elements = ''*'' \<or> last elements = ''**'' then butlast elements else elements)
       (if last elements = ''*'' then (\<lambda>x. \<not> startswith x ''package:'') else (\<lambda>x. True))"
  using assms by (simp add: rows_def Let_def split: sum.split option.split)

lemma gmr_fail:
  assumes "signature_to_elements p = Inl e"
  shows "get_matching_rows (InteriorNode nodes) p = (Inl e, InteriorNode nodes)"
  using assms by simp

declare add_walk.simps(2) [simp del]

declare values_of.simps(2) [simp del]

subsection \<open>Calls of \<open>add\<close> that raise\<close>

lemma add_walk_fresh:
  "fst (add_walk (InteriorNode []) es l v) =
     (if startswith l ''member:'' then Inr () else Inl InvalidMemberSignature)"
proof (induction es)
  case Nil
  show ?case by simp
next
  case (Cons e es)
  then show ?case unfolding add_walk_Cons by simp
qed

lemma add_walk_fail_same:
  "fst (add_walk n es l v) = Inl e \<Longrightarrow> e \<noteq> InvalidMemberSignature
     \<Longrightarrow> snd (add_walk n es l v) = n"
proof (induction es arbitrary: n)
  case Nil
  then show ?case by (cases n) (auto split: if_splits)
next
  case (Cons a es)
  show ?case
  proof (cases n)
    case (Leaf x)
    then show ?thesis by (simp add: add_walk_Leaf)
  next
    case (InteriorNode nodes)
    let ?c = "case map_of nodes a of Some child \<Rightarrow> child | None \<Rightarrow> InteriorNode []"
    from Cons.prems(1) have f: "fst (add_walk ?c es l v) = Inl e"
      unfolding InteriorNode add_walk_Cons by simp
    then have same: "snd (add_walk ?c es l v) = ?c"
      using Cons.prems(2) by (rule Cons.IH)
    show ?thesis
    proof (cases "map_of nodes a")
      case None
      with f have "fst (add_walk (InteriorNode []) es l v) = Inl e" by simp
      with Cons.prems(2) have False
        unfolding add_walk_fresh by (simp split: if_splits)
      then show ?thesis ..
    next
      case (Some child)
      with same have "snd (add_walk child es l v) = child" by simp
      then show ?thesis
        unfolding InteriorNode add_walk_Cons by (simp add: Some update_triv[OF Some])
    qed
  qed
qed

lemma values_update_same:
  assumes "subtree_values c' = subtree_values c"
    and "map_of nodes e = Some c \<or> (map_of nodes e = None \<and> subtree_values c = [])"
  shows "concat (values_of (InteriorNode (AList.update e c' nodes)) sel)
    = concat (values_of (InteriorNode nodes) sel)"
proof -
  from assms(2) show ?thesis
  proof
    assume m: "map_of nodes e = Some c"
    from update_present[OF m, of c'] obtain pre post where
      n: "nodes = pre @ (e, c) # post" and u: "AList.update e c' nodes = pre @ (e, c') # post"
      by blast
    show ?thesis unfolding u rows_Interior unfolding n by (simp add: assms(1))
  next
    assume a: "map_of nodes e = None \<and> subtree_values c = []"
    then have u: "AList.update e c' nodes = nodes @ [(e, c')]" by (simp add: update_absent)
    from a assms(1) have "subtree_values c' = []" by simp
    then show ?thesis unfolding u rows_Interior by simp
  qed
qed

lemma subtree_values_empty: "subtree_values (InteriorNode []) = []"
  by (simp add: subtree_values_def values_of.simps(2))

lemma add_walk_invalid_rows:
  "\<not> startswith l ''member:'' \<Longrightarrow> rows (snd (add_walk n es l v)) ps sel = rows n ps sel"
proof (induction es arbitrary: n ps sel)
  case Nil
  then show ?case by simp
next
  case (Cons a es)
  show ?case
  proof (cases n)
    case (Leaf x)
    then show ?thesis by (simp add: add_walk_Leaf)
  next
    case (InteriorNode nodes)
    let ?c = "case map_of nodes a of Some child \<Rightarrow> child | None \<Rightarrow> InteriorNode []"
    let ?c' = "snd (add_walk ?c es l v)"
    have IH: "rows ?c' qs s = rows ?c qs s" for qs s
      using Cons.prems by (rule Cons.IH)
    have n': "snd (add_walk (InteriorNode nodes) (a # es) l v)
      = InteriorNode (AList.update a ?c' nodes)"
      unfolding add_walk_Cons by simp
    show ?thesis
    proof (cases ps)
      case Nil
      from IH[of "[]" "\<lambda>x. True"] have sv: "subtree_values ?c' = subtree_values ?c"
        by (simp add: rows_Nil subtree_values_def)
      have "map_of nodes a = Some ?c \<or> (map_of nodes a = None \<and> subtree_values ?c = [])"
        by (cases "map_of nodes a") (simp_all add: subtree_values_empty)
      with sv have "concat (values_of (InteriorNode (AList.update a ?c' nodes)) sel)
        = concat (values_of (InteriorNode nodes) sel)"
        by (rule values_update_same)
      then show ?thesis unfolding Nil InteriorNode n' rows_Nil by simp
    next
      case (Cons p ps')
      show ?thesis
      proof (cases "p = a")
        case True
        have "rows (InteriorNode (AList.update a ?c' nodes)) (a # ps') sel = rows ?c' ps' sel"
          by (simp add: rows_Cons update_conv')
        also have "\<dots> = rows ?c ps' sel" by (rule IH)
        also have "\<dots> = rows (InteriorNode nodes) (a # ps') sel"
          by (cases "map_of nodes a") (simp_all add: rows_Cons rows_empty)
        finally show ?thesis unfolding Cons InteriorNode n' True .
      next
        case False
        then have "rows (InteriorNode (AList.update a ?c' nodes)) (p # ps') sel
          = rows (InteriorNode nodes) (p # ps') sel"
          by (simp add: rows_Cons update_conv')
        then show ?thesis unfolding Cons InteriorNode n' .
      qed
    qed
  qed
qed

lemma add_walk_member_not_invalid:
  "startswith l ''member:'' \<Longrightarrow> fst (add_walk n es l v) \<noteq> Inl InvalidMemberSignature"
proof (induction es arbitrary: n)
  case Nil
  then show ?case by (cases n) simp_all
next
  case (Cons a es)
  show ?case
  proof (cases n)
    case (Leaf x)
    then show ?thesis by (simp add: add_walk_Leaf)
  next
    case (InteriorNode nodes)
    show ?thesis unfolding InteriorNode add_walk_Cons fst_conv
      using Cons.prems by (rule Cons.IH)
  qed
qed

lemma add_walk_fail_rows:
  assumes "fst (add_walk n es l v) = Inl e"
  shows "rows (snd (add_walk n es l v)) ps sel = rows n ps sel"
proof (cases "startswith l ''member:''")
  case True
  then have "fst (add_walk n es l v) \<noteq> Inl InvalidMemberSignature"
    by (rule add_walk_member_not_invalid)
  with assms have "e \<noteq> InvalidMemberSignature" by auto
  with assms have "snd (add_walk n es l v) = n" by (rule add_walk_fail_same)
  then show ?thesis by simp
next
  case False
  then show ?thesis by (rule add_walk_invalid_rows)
qed

lemma add_fail_rows:
  assumes "fst (add t s v) = Inl e"
  shows "rows (snd (add t s v)) ps sel = rows t ps sel"
proof (cases t)
  case (Leaf x)
  then show ?thesis by simp
next
  case (InteriorNode nodes)
  show ?thesis
  proof (cases "signature_to_elements s")
    case (Inl e')
    then show ?thesis unfolding InteriorNode by simp
  next
    case (Inr elements)
    with assms have "fst (add_walk (InteriorNode nodes) (butlast elements) (last elements) v) = Inl e"
      unfolding InteriorNode by simp
    then have "rows (snd (add_walk (InteriorNode nodes) (butlast elements) (last elements) v)) ps sel
      = rows (InteriorNode nodes) ps sel"
      by (rule add_walk_fail_rows)
    then show ?thesis unfolding InteriorNode by (simp add: Inr)
  qed
qed


lemma add_kind: "\<exists>nodes'. snd (add (InteriorNode nodes) s v) = InteriorNode nodes'"
proof (cases "signature_to_elements s")
  case (Inl e)
  then show ?thesis by simp
next
  case (Inr elements)
  have "\<exists>nodes'. snd (add_walk (InteriorNode nodes) (butlast elements) (last elements) v)
    = InteriorNode nodes'"
    by (rule add_walk_kind[of nodes "butlast elements" "last elements" v
          "fst (add_walk (InteriorNode nodes) (butlast elements) (last elements) v)"]) simp
  then show ?thesis by (simp add: Inr)
qed



lemma add_fail_subtree_values:
  assumes "fst (add t s v) = Inl e"
  shows "subtree_values (snd (add t s v)) = subtree_values t"
  using add_fail_rows[OF assms, of "[]" "\<lambda>x. True"]
  by (simp add: rows_Nil subtree_values_def)




subsection \<open>Calls of \<open>add\<close> that return\<close>

lemma mset_subtree_update:
  assumes "mset (subtree_values c') = add_mset v (mset (subtree_values c))"
    and "map_of nodes e = Some c \<or> (map_of nodes e = None \<and> subtree_values c = [])"
  shows "mset (subtree_values (InteriorNode (AList.update e c' nodes)))
    = add_mset v (mset (subtree_values (InteriorNode nodes)))"
proof -
  from assms(2) show ?thesis
  proof
    assume m: "map_of nodes e = Some c"
    from update_present[OF m, of c'] obtain pre post where
      n: "nodes = pre @ (e, c) # post" and u: "AList.update e c' nodes = pre @ (e, c') # post"
      by blast
    show ?thesis unfolding u subtree_values_Interior unfolding n by (simp add: assms(1))
  next
    assume a: "map_of nodes e = None \<and> subtree_values c = []"
    then have u: "AList.update e c' nodes = nodes @ [(e, c')]" by (simp add: update_absent)
    from a assms(1) have "mset (subtree_values c') = {#v#}" by simp
    then show ?thesis unfolding u subtree_values_Interior by simp
  qed
qed

lemma add_walk_success_mset:
  "add_walk n es l v = (Inr (), n')
     \<Longrightarrow> mset (subtree_values n') = add_mset v (mset (subtree_values n))"
proof (induction es arbitrary: n n')
  case Nil
  then obtain nodes where n: "n = InteriorNode nodes" and m: "map_of nodes l = None"
    and n': "n' = InteriorNode (AList.update l (Leaf v) nodes)"
    unfolding add_walk_Nil_Inr by blast
  have "mset (subtree_values (Leaf v)) = add_mset v (mset (subtree_values (InteriorNode [])))"
    by (simp add: subtree_values_Leaf subtree_values_empty)
  moreover have "map_of nodes l = Some (InteriorNode [])
      \<or> (map_of nodes l = None \<and> subtree_values (InteriorNode [] :: 'a node) = [])"
    using m by (simp add: subtree_values_empty)
  ultimately show ?case unfolding n n' by (rule mset_subtree_update)
next
  case (Cons a es)
  show ?case
  proof (cases n)
    case (Leaf x)
    with Cons.prems show ?thesis by (simp add: add_walk_Leaf)
  next
    case (InteriorNode nodes)
    let ?c = "case map_of nodes a of Some child \<Rightarrow> child | None \<Rightarrow> InteriorNode []"
    let ?c' = "snd (add_walk ?c es l v)"
    from Cons.prems have f: "fst (add_walk ?c es l v) = Inr ()"
      and n': "n' = InteriorNode (AList.update a ?c' nodes)"
      unfolding InteriorNode add_walk_Cons by simp_all
    from f have "add_walk ?c es l v = (Inr (), ?c')" by (metis prod.collapse)
    then have "mset (subtree_values ?c') = add_mset v (mset (subtree_values ?c))"
      by (rule Cons.IH)
    moreover have "map_of nodes a = Some ?c \<or> (map_of nodes a = None \<and> subtree_values ?c = [])"
      by (cases "map_of nodes a") (simp_all add: subtree_values_empty)
    ultimately show ?thesis unfolding InteriorNode n' by (rule mset_subtree_update)
  qed
qed

lemma add_success_mset:
  assumes "add t s v = (Inr (), t')"
  shows "mset (subtree_values t') = add_mset v (mset (subtree_values t))"
proof -
  from assms obtain nodes elements where t: "t = InteriorNode nodes"
    and aw: "add_walk (InteriorNode nodes) (butlast elements) (last elements) v = (Inr (), t')"
    by (rule add_Inr_D)
  show ?thesis unfolding t using aw by (rule add_walk_success_mset)
qed

lemma add_all_mset:
  "add_all t ops = (t', vs) \<Longrightarrow> mset (subtree_values t') = mset (subtree_values t) + mset vs"
proof (induction ops arbitrary: t t' vs)
  case Nil
  then show ?case by simp
next
  case (Cons sv ops)
  obtain r t1 where a: "add t (fst sv) (snd sv) = (r, t1)" by (cases "add t (fst sv) (snd sv)")
  show ?case
  proof (cases r)
    case (Inl e)
    with a Cons.prems have rest: "add_all t1 ops = (t', vs)" by simp
    from a Inl have "fst (add t (fst sv) (snd sv)) = Inl e" by simp
    then have "subtree_values (snd (add t (fst sv) (snd sv))) = subtree_values t"
      by (rule add_fail_subtree_values)
    with a have "subtree_values t1 = subtree_values t" by simp
    with Cons.IH[OF rest] show ?thesis by simp
  next
    case (Inr u)
    obtain t2 vs2 where rest: "add_all t1 ops = (t2, vs2)" by (cases "add_all t1 ops")
    with a Inr Cons.prems have eq: "t' = t2" "vs = snd sv # vs2" by simp_all
    from a Inr have "add t (fst sv) (snd sv) = (Inr (), t1)" by simp
    then have "mset (subtree_values t1) = add_mset (snd sv) (mset (subtree_values t))"
      by (rule add_success_mset)
    with Cons.IH[OF rest] show ?thesis unfolding eq by simp
  qed
qed

lemma add_all_kind:
  "add_all (InteriorNode nodes) ops = (t', vs) \<Longrightarrow> \<exists>nodes'. t' = InteriorNode nodes'"
proof (induction ops arbitrary: nodes t' vs)
  case Nil
  then show ?case by auto
next
  case (Cons sv ops)
  from add_kind[of nodes "fst sv" "snd sv"] obtain nodes1 where
    k: "snd (add (InteriorNode nodes) (fst sv) (snd sv)) = InteriorNode nodes1" ..
  obtain r where a: "add (InteriorNode nodes) (fst sv) (snd sv) = (r, InteriorNode nodes1)"
    using k by (metis prod.collapse)
  obtain t2 vs2 where rest: "add_all (InteriorNode nodes1) ops = (t2, vs2)"
    by (cases "add_all (InteriorNode nodes1) ops")
  from Cons.IH[OF rest] obtain nodes2 where t2: "t2 = InteriorNode nodes2" ..
  from Cons.prems a rest have "t' = t2"
    by (cases r) (simp_all del: add.simps)
  with t2 show ?case by simp
qed

subsection \<open>The keys of the root\<close>

lemma elements_hd:
  assumes "signature_to_elements s = Inr elements" and "butlast elements \<noteq> []"
  shows "startswith (hd elements) ''package:'' \<or> startswith (hd elements) ''class:''"
proof -
  define parts where "parts = split '';->'' (removeprefix ''L'' s)"
  define els where "els = split ''/'' (hd parts)"
  show ?thesis
  proof (cases "butlast els")
    case Nil
    show ?thesis
    proof (cases "last els = ''*'' \<or> last els = ''**''")
      case True
      with assms(1) Nil have "elements = [last els]"
        unfolding signature_to_elements_def Let_def parts_def[symmetric] els_def[symmetric]
        by (simp split: if_splits)
      with assms(2) show ?thesis by simp
    next
      case False
      with assms(1) Nil have "elements = map (\<lambda>x. ''class:'' @ x) (split ''$'' (last els))
          @ map (\<lambda>x. ''member:'' @ x) (tl parts)"
        unfolding signature_to_elements_def Let_def parts_def[symmetric] els_def[symmetric]
        by (auto split: if_splits)
      moreover obtain c cs where "split ''$'' (last els) = c # cs"
        using split_not_Nil by (cases "split ''$'' (last els)") auto
      ultimately show ?thesis by (simp add: startswith_def)
    qed
  next
    case (Cons p ps)
    with assms(1) have "hd elements = ''package:'' @ p"
      unfolding signature_to_elements_def Let_def parts_def[symmetric] els_def[symmetric]
      by (auto split: if_splits)
    then show ?thesis by (simp add: startswith_def)
  qed
qed

lemma elements_last_member:
  assumes "signature_to_elements s = Inr elements" and "startswith (last elements) ''member:''"
  shows "butlast elements \<noteq> []"
proof -
  define parts where "parts = split '';->'' (removeprefix ''L'' s)"
  define els where "els = split ''/'' (hd parts)"
  define P where "P = map (\<lambda>x. ''package:'' @ x) (butlast els)"
  define C where "C = map (\<lambda>x. ''class:'' @ x) (split ''$'' (last els))"
  define M where "M = map (\<lambda>x. ''member:'' @ x) (tl parts)"
  have C: "C \<noteq> []" unfolding C_def by (simp add: split_not_Nil)
  have lastC: "\<not> startswith (last C) ''member:''"
    using C unfolding C_def by (simp add: last_map startswith_def)
  from assms member_not_wildcard[OF assms(2)] have e: "elements = P @ C @ M"
    unfolding signature_to_elements_def Let_def parts_def[symmetric] els_def[symmetric]
      P_def C_def M_def
    by (auto split: if_splits)
  show ?thesis
  proof (cases "M = []")
    case True
    with e C have "last elements = last C" by simp
    with lastC assms(2) show ?thesis by simp
  next
    case False
    then have "butlast elements = P @ C @ butlast M"
      unfolding e by (simp add: butlast_append)
    with C show ?thesis by simp
  qed
qed

lemma add_walk_root_keys:
  assumes "snd (add_walk (InteriorNode nodes) es l v) = InteriorNode nodes'"
    and "es \<noteq> []"
  shows "fst ` set nodes' = insert (hd es) (fst ` set nodes)"
proof -
  from assms(2) obtain a es' where es: "es = a # es'" by (cases es) auto
  from assms(1) obtain c where "nodes' = AList.update a c nodes"
    unfolding es add_walk_Cons by auto
  then show ?thesis unfolding es by (simp add: dom_update)
qed

lemma add_walk_Nil_root_keys:
  assumes "snd (add_walk (InteriorNode nodes) [] l v) = InteriorNode nodes'"
    and "\<not> startswith l ''member:''"
  shows "nodes' = nodes"
  using assms by simp

lemma add_root_keys:
  assumes "snd (add (InteriorNode nodes) s v) = InteriorNode nodes'"
    and "\<forall>k \<in> fst ` set nodes. startswith k ''package:'' \<or> startswith k ''class:''"
  shows "\<forall>k \<in> fst ` set nodes'. startswith k ''package:'' \<or> startswith k ''class:''"
proof (cases "signature_to_elements s")
  case (Inl e)
  with assms show ?thesis by simp
next
  case (Inr elements)
  with assms(1) have aw: "snd (add_walk (InteriorNode nodes) (butlast elements) (last elements) v)
    = InteriorNode nodes'" by simp
  have ne: "elements \<noteq> []" using Inr by (rule signature_to_elements_not_Nil)
  show ?thesis
  proof (cases "butlast elements = []")
    case True
    with ne have single: "elements = [last elements]"
      by (metis append_butlast_last_id append_Nil)
    have "\<not> startswith (last elements) ''member:''"
      using elements_last_member[OF Inr] True by blast
    with aw True have "nodes' = nodes" by simp
    with assms(2) show ?thesis by simp
  next
    case False
    from aw False have k: "fst ` set nodes' = insert (hd (butlast elements)) (fst ` set nodes)"
      by (rule add_walk_root_keys)
    from False have "hd (butlast elements) = hd elements"
      by (cases elements) (auto split: if_splits)
    moreover from Inr False have
      "startswith (hd elements) ''package:'' \<or> startswith (hd elements) ''class:''"
      by (rule elements_hd)
    ultimately show ?thesis using assms(2) unfolding k by auto
  qed
qed

lemma add_all_root_keys:
  "add_all (InteriorNode nodes) ops = (InteriorNode nodes', vs)
     \<Longrightarrow> \<forall>k \<in> fst ` set nodes. startswith k ''package:'' \<or> startswith k ''class:''
     \<Longrightarrow> \<forall>k \<in> fst ` set nodes'. startswith k ''package:'' \<or> startswith k ''class:''"
proof (induction ops arbitrary: nodes nodes' vs)
  case Nil
  then show ?case by simp
next
  case (Cons sv ops)
  from add_kind[of nodes "fst sv" "snd sv"] obtain nodes1 where
    k: "snd (add (InteriorNode nodes) (fst sv) (snd sv)) = InteriorNode nodes1" ..
  obtain r where a: "add (InteriorNode nodes) (fst sv) (snd sv) = (r, InteriorNode nodes1)"
    using k by (metis prod.collapse)
  from k Cons.prems(2) have ok1:
    "\<forall>k \<in> fst ` set nodes1. startswith k ''package:'' \<or> startswith k ''class:''"
    by (rule add_root_keys)
  obtain t2 vs2 where rest: "add_all (InteriorNode nodes1) ops = (t2, vs2)"
    by (cases "add_all (InteriorNode nodes1) ops")
  from Cons.prems(1) a rest have "t2 = InteriorNode nodes'"
    by (cases r) (simp_all del: add.simps)
  with rest have "add_all (InteriorNode nodes1) ops = (InteriorNode nodes', vs2)" by simp
  then show ?case using ok1 by (rule Cons.IH)
qed

lemma eval_els_star2: "signature_to_elements ''**'' = Inr [''**'']"
  by (simp add: signature_to_elements_def removeprefix_def Let_def)

lemma eval_els_Lstar2: "signature_to_elements ''L**'' = Inr [''**'']"
  by (simp add: signature_to_elements_def removeprefix_def Let_def)

lemma eval_els_star1: "signature_to_elements ''*'' = Inr [''*'']"
  by (simp add: signature_to_elements_def removeprefix_def Let_def)

lemma gmr_star2:
  "fst (get_matching_rows (InteriorNode nodes) ''**'') = Inr (subtree_values (InteriorNode nodes))"
  unfolding gmr_rows[OF eval_els_star2] by (simp add: rows_Nil subtree_values_def)

lemma gmr_Lstar2:
  "fst (get_matching_rows (InteriorNode nodes) ''L**'') = Inr (subtree_values (InteriorNode nodes))"
  unfolding gmr_rows[OF eval_els_Lstar2] by (simp add: rows_Nil subtree_values_def)

lemma gmr_star1:
  "fst (get_matching_rows (InteriorNode nodes) ''*'') =
     Inr (concat (map (\<lambda>item. subtree_values (snd item))
            (filter (\<lambda>item. \<not> startswith (fst item) ''package:'') nodes)))"
  unfolding gmr_rows[OF eval_els_star1] by (simp add: rows_Nil rows_Interior)

lemma filter_root_classes:
  assumes "\<forall>k \<in> fst ` set nodes. startswith k ''package:'' \<or> startswith k ''class:''"
  shows "filter (\<lambda>item. \<not> startswith (fst item) ''package:'') nodes
    = filter (\<lambda>item. startswith (fst item) ''class:'') nodes"
proof (rule filter_cong[OF refl])
  fix item assume "item \<in> set nodes"
  with assms have "startswith (fst item) ''package:'' \<or> startswith (fst item) ''class:''"
    by simp
  moreover have "\<not> (startswith (fst item) ''package:'' \<and> startswith (fst item) ''class:'')"
    by (auto simp: startswith_def prefix_def)
  ultimately show "(\<not> startswith (fst item) ''package:'') = startswith (fst item) ''class:''"
    by blast
qed

lemma eval_add_all:
  "add_all (signature_trie :: nat node)
     [(''Lpkg/Foo;->m()V'', 1), (''LBar;->f'', 2), (''Lpkg/Foo'', 3), (''Lpkg/Foo;->m()V'', 4)]
   = (InteriorNode
        [(''package:pkg'', InteriorNode [(''class:Foo'', InteriorNode [(''member:m()V'', Leaf 1)])]),
         (''class:Bar'', InteriorNode [(''member:f'', Leaf 2)])],
      [1, 2])"
  by (simp add: signature_trie_def signature_to_elements_def removeprefix_def Let_def
      add_walk_Cons startswith_def)

subsection \<open>Values and the paths that lead to them\<close>

lemma walk_append:
  "walk n ps = Inr (Some m) \<Longrightarrow> walk n (ps @ qs) = walk m qs"
proof (induction ps arbitrary: n)
  case Nil
  then show ?case by simp
next
  case (Cons p ps)
  show ?case
  proof (cases n)
    case (Leaf x)
    with Cons.prems show ?thesis by simp
  next
    case (InteriorNode nodes)
    with Cons.prems obtain child where c: "map_of nodes p = Some child"
      and w: "walk child ps = Inr (Some m)"
      by (cases "map_of nodes p") auto
    from w have "walk child (ps @ qs) = walk m qs" by (rule Cons.IH)
    then show ?thesis unfolding InteriorNode by (simp add: c)
  qed
qed

lemma walk_leaf_in_subtree:
  "walk n ks = Inr (Some (Leaf v)) \<Longrightarrow> v \<in> set (subtree_values n)"
proof (induction ks arbitrary: n)
  case Nil
  then show ?case by (simp add: subtree_values_Leaf)
next
  case (Cons k ks)
  show ?case
  proof (cases n)
    case (Leaf x)
    with Cons.prems show ?thesis by simp
  next
    case (InteriorNode nodes)
    with Cons.prems obtain child where c: "map_of nodes k = Some child"
      and w: "walk child ks = Inr (Some (Leaf v))"
      by (cases "map_of nodes k") auto
    from w have "v \<in> set (subtree_values child)" by (rule Cons.IH)
    moreover from c have "(k, child) \<in> set nodes" by (rule map_of_SomeD)
    ultimately show ?thesis unfolding InteriorNode subtree_values_Interior by force
  qed
qed

lemma subtree_in_walk:
  "distinct_keys n \<Longrightarrow> v \<in> set (subtree_values n) \<Longrightarrow> \<exists>ks. walk n ks = Inr (Some (Leaf v))"
proof (induction n rule: distinct_keys.induct)
  case (1 x)
  then have "walk (Leaf x) [] = Inr (Some (Leaf v))" by (simp add: subtree_values_Leaf)
  then show ?case ..
next
  case (2 nodes)
  from "2.prems"(2) obtain item where i: "item \<in> set nodes"
    and v: "v \<in> set (subtree_values (snd item))"
    unfolding subtree_values_Interior by auto
  from "2.prems"(1) i have d: "distinct_keys (snd item)" by (simp add: list_all_iff)
  from i d v have "\<exists>ks. walk (snd item) ks = Inr (Some (Leaf v))" by (rule "2.IH")
  then obtain ks where ks: "walk (snd item) ks = Inr (Some (Leaf v))" ..
  from "2.prems"(1) i have "map_of nodes (fst item) = Some (snd item)" by simp
  with ks have "walk (InteriorNode nodes) (fst item # ks) = Inr (Some (Leaf v))" by simp
  then show ?case ..
qed

lemma in_selected_iff:
  "v \<in> set (concat (values_of (InteriorNode kids) sel)) \<longleftrightarrow>
     (\<exists>item \<in> set kids. sel (fst item) \<and> v \<in> set (subtree_values (snd item)))"
proof -
  have "v \<in> set (concat (map (\<lambda>item. subtree_values (snd item)) (filter (\<lambda>item. sel (fst item)) kids)))
    \<longleftrightarrow> (\<exists>item \<in> set kids. sel (fst item) \<and> v \<in> set (subtree_values (snd item)))"
    by (induction kids) auto
  then show ?thesis unfolding rows_Interior .
qed

lemma selected_values_paths:
  assumes "distinct_keys (InteriorNode kids)"
  shows "set (concat (values_of (InteriorNode kids) sel)) =
     {v. \<exists>k ks. sel k \<and> walk (InteriorNode kids) (k # ks) = Inr (Some (Leaf v))}"
proof (rule set_eqI)
  fix v
  show "v \<in> set (concat (values_of (InteriorNode kids) sel)) \<longleftrightarrow>
    v \<in> {v. \<exists>k ks. sel k \<and> walk (InteriorNode kids) (k # ks) = Inr (Some (Leaf v))}"
  proof
    assume "v \<in> set (concat (values_of (InteriorNode kids) sel))"
    then obtain item where i: "item \<in> set kids" and s: "sel (fst item)"
      and v: "v \<in> set (subtree_values (snd item))"
      unfolding in_selected_iff by blast
    from assms i have "distinct_keys (snd item)" by (simp add: list_all_iff)
    then have "\<exists>ks. walk (snd item) ks = Inr (Some (Leaf v))"
      using v by (rule subtree_in_walk)
    then obtain ks where ks: "walk (snd item) ks = Inr (Some (Leaf v))" ..
    from assms i have "map_of kids (fst item) = Some (snd item)" by simp
    with ks have "walk (InteriorNode kids) (fst item # ks) = Inr (Some (Leaf v))" by simp
    with s have "\<exists>k ks. sel k \<and> walk (InteriorNode kids) (k # ks) = Inr (Some (Leaf v))"
      by blast
    then show "v \<in> {v. \<exists>k ks. sel k \<and> walk (InteriorNode kids) (k # ks) = Inr (Some (Leaf v))}"
      by simp
  next
    assume "v \<in> {v. \<exists>k ks. sel k \<and> walk (InteriorNode kids) (k # ks) = Inr (Some (Leaf v))}"
    then obtain k ks where s: "sel k"
      and w: "walk (InteriorNode kids) (k # ks) = Inr (Some (Leaf v))" by blast
    from w obtain child where c: "map_of kids k = Some child"
      and w': "walk child ks = Inr (Some (Leaf v))"
      by (cases "map_of kids k") auto
    from w' have "v \<in> set (subtree_values child)" by (rule walk_leaf_in_subtree)
    moreover from c have "(k, child) \<in> set kids" by (rule map_of_SomeD)
    ultimately have "\<exists>item \<in> set kids. sel (fst item) \<and> v \<in> set (subtree_values (snd item))"
      using s by force
    then show "v \<in> set (concat (values_of (InteriorNode kids) sel))"
      unfolding in_selected_iff .
  qed
qed

lemma walk_distinct_keys:
  "distinct_keys n \<Longrightarrow> walk n ks = Inr (Some m) \<Longrightarrow> distinct_keys m"
proof (induction ks arbitrary: n)
  case Nil
  then show ?case by simp
next
  case (Cons k ks)
  show ?case
  proof (cases n)
    case (Leaf x)
    with Cons.prems show ?thesis by simp
  next
    case (InteriorNode nodes)
    with Cons.prems obtain child where c: "map_of nodes k = Some child"
      and w: "walk child ks = Inr (Some m)"
      by (cases "map_of nodes k") auto
    from c have "(k, child) \<in> set nodes" by (rule map_of_SomeD)
    with Cons.prems(1) have "distinct_keys child"
      unfolding InteriorNode by (auto simp: list_all_iff)
    then show ?thesis using w by (rule Cons.IH)
  qed
qed

lemma set_update_subset: "set (AList.update k c al) \<subseteq> insert (k, c) (set al)"
  by (induction al) auto

lemma distinct_keys_update:
  assumes "distinct_keys (InteriorNode nodes)" and "distinct_keys c"
  shows "distinct_keys (InteriorNode (AList.update k c nodes))"
proof -
  from assms(1) have "distinct (map fst (AList.update k c nodes))"
    by (simp add: distinct_update)
  moreover have "distinct_keys (snd item)" if "item \<in> set (AList.update k c nodes)" for item
  proof -
    from that set_update_subset[of k c nodes] have "item = (k, c) \<or> item \<in> set nodes" by auto
    with assms show ?thesis by (auto simp: list_all_iff)
  qed
  ultimately show ?thesis by (simp add: list_all_iff)
qed

lemma add_walk_distinct_keys:
  "distinct_keys n \<Longrightarrow> distinct_keys (snd (add_walk n es l v))"
proof (induction es arbitrary: n)
  case Nil
  show ?case
  proof (cases n)
    case (Leaf x)
    then show ?thesis by simp
  next
    case (InteriorNode nodes)
    have "distinct_keys (InteriorNode (AList.update l (Leaf v) nodes))"
      using Nil[unfolded InteriorNode] by (rule distinct_keys_update) simp
    with Nil show ?thesis unfolding InteriorNode by simp
  qed
next
  case (Cons a es)
  show ?case
  proof (cases n)
    case (Leaf x)
    then show ?thesis by (simp add: add_walk_Leaf)
  next
    case (InteriorNode nodes)
    let ?c = "case map_of nodes a of Some child \<Rightarrow> child | None \<Rightarrow> InteriorNode []"
    have "distinct_keys ?c"
    proof (cases "map_of nodes a")
      case None
      then show ?thesis by simp
    next
      case (Some child)
      then have "(a, child) \<in> set nodes" by (rule map_of_SomeD)
      with Cons.prems have "distinct_keys child"
        unfolding InteriorNode by (auto simp: list_all_iff)
      with Some show ?thesis by simp
    qed
    then have "distinct_keys (snd (add_walk ?c es l v))" by (rule Cons.IH)
    with Cons.prems[unfolded InteriorNode]
    have "distinct_keys (InteriorNode (AList.update a (snd (add_walk ?c es l v)) nodes))"
      by (rule distinct_keys_update)
    then show ?thesis unfolding InteriorNode add_walk_Cons by simp
  qed
qed

lemma add_distinct_keys: "distinct_keys t \<Longrightarrow> distinct_keys (snd (add t s v))"
proof (cases t)
  case (Leaf x)
  then show ?thesis by simp
next
  case (InteriorNode nodes)
  assume "distinct_keys t"
  then show ?thesis unfolding InteriorNode
    by (cases "signature_to_elements s") (simp_all add: add_walk_distinct_keys del: distinct_keys.simps)
qed

lemma add_all_distinct_keys:
  "distinct_keys t \<Longrightarrow> distinct_keys (fst (add_all t ops))"
proof (induction ops arbitrary: t)
  case Nil
  then show ?case by simp
next
  case (Cons sv ops)
  obtain r t1 where a: "add t (fst sv) (snd sv) = (r, t1)" by (cases "add t (fst sv) (snd sv)")
  from Cons.prems have "distinct_keys (snd (add t (fst sv) (snd sv)))" by (rule add_distinct_keys)
  with a have "distinct_keys t1" by simp
  then have IH: "distinct_keys (fst (add_all t1 ops))" by (rule Cons.IH)
  show ?case
  proof (cases r)
    case (Inl e)
    with a IH show ?thesis by simp
  next
    case (Inr u)
    with a IH show ?thesis by (auto split: prod.split)
  qed
qed

lemma eval_els_Bar:
  "signature_to_elements ''Lpkg/sub/Bar;->n()V'' =
     Inr [''package:pkg'', ''package:sub'', ''class:Bar'', ''member:n()V'']"
  by (simp add: signature_to_elements_def removeprefix_def Let_def)

lemma eval_add_Bar:
  "add (InteriorNode [(''package:pkg'', InteriorNode [(''class:Foo'',
        InteriorNode [(''member:m()V'', Leaf v1)])])]) ''Lpkg/sub/Bar;->n()V'' v2 =
     (Inr (), InteriorNode [(''package:pkg'', InteriorNode
        [(''class:Foo'', InteriorNode [(''member:m()V'', Leaf v1)]),
         (''package:sub'', InteriorNode [(''class:Bar'', InteriorNode [(''member:n()V'', Leaf v2)])])])])"
  by (simp add: eval_els_Bar add_walk_Cons startswith_def)

lemma eval_els_pkg_star1: "signature_to_elements ''Lpkg/*'' = Inr [''package:pkg'', ''*'']"
  by (simp add: signature_to_elements_def removeprefix_def Let_def)

lemma eval_els_pkg_star2: "signature_to_elements ''Lpkg/**'' = Inr [''package:pkg'', ''**'']"
  by (simp add: signature_to_elements_def removeprefix_def Let_def)

lemma eval_gmr_pkg_star1:
  "fst (get_matching_rows (InteriorNode [(''package:pkg'', InteriorNode
        [(''class:Foo'', InteriorNode [(''member:m()V'', Leaf v1)]),
         (''package:sub'', InteriorNode [(''class:Bar'', InteriorNode [(''member:n()V'', Leaf v2)])])])])
     ''Lpkg/*'') = Inr [v1]"
  unfolding gmr_rows[OF eval_els_pkg_star1]
  by (simp add: rows_Cons rows_Nil rows_Interior subtree_values_Interior subtree_values_Leaf
      startswith_def)

lemma eval_gmr_pkg_star2:
  "fst (get_matching_rows (InteriorNode [(''package:pkg'', InteriorNode
        [(''class:Foo'', InteriorNode [(''member:m()V'', Leaf v1)]),
         (''package:sub'', InteriorNode [(''class:Bar'', InteriorNode [(''member:n()V'', Leaf v2)])])])])
     ''Lpkg/**'') = Inr [v1, v2]"
  unfolding gmr_rows[OF eval_els_pkg_star2]
  by (simp add: rows_Cons rows_Nil rows_Interior subtree_values_Interior subtree_values_Leaf
      startswith_def)

lemma gmr_single_level:
  assumes "signature_to_elements p = Inr (pre @ [''*''])"
    and "walk (InteriorNode nodes) pre = Inr (Some (InteriorNode kids))"
  shows "fst (get_matching_rows (InteriorNode nodes) p) =
     Inr (concat (map (\<lambda>item. subtree_values (snd item))
            (filter (\<lambda>item. \<not> startswith (fst item) ''package:'') kids)))"
  unfolding gmr_rows[OF assms(1)] by (simp add: rows_def assms(2) rows_Interior)

lemma single_level_paths:
  assumes "walk (InteriorNode nodes) pre = Inr (Some (InteriorNode kids))"
    and "distinct_keys (InteriorNode nodes)"
  shows "set (concat (map (\<lambda>item. subtree_values (snd item))
            (filter (\<lambda>item. sel (fst item)) kids)))
    = {v. \<exists>k ks. sel k \<and> walk (InteriorNode nodes) (pre @ k # ks) = Inr (Some (Leaf v))}"
proof -
  from assms(2,1) have "distinct_keys (InteriorNode kids)" by (rule walk_distinct_keys)
  then have "set (concat (values_of (InteriorNode kids) sel)) =
     {v. \<exists>k ks. sel k \<and> walk (InteriorNode kids) (k # ks) = Inr (Some (Leaf v))}"
    by (rule selected_values_paths)
  then show ?thesis unfolding rows_Interior walk_append[OF assms(1)] .
qed

subsection \<open>Patterns that are a prefix of an inserted signature\<close>

lemma walk_split:
  "walk n (ps @ qs) = Inr (Some m)
     \<Longrightarrow> \<exists>m'. walk n ps = Inr (Some m') \<and> walk m' qs = Inr (Some m)"
proof (induction ps arbitrary: n)
  case Nil
  then show ?case by simp
next
  case (Cons p ps)
  show ?case
  proof (cases n)
    case (Leaf x)
    with Cons.prems show ?thesis by simp
  next
    case (InteriorNode nodes)
    with Cons.prems obtain child where c: "map_of nodes p = Some child"
      and w: "walk child (ps @ qs) = Inr (Some m)"
      by (cases "map_of nodes p") auto
    from w have "\<exists>m'. walk child ps = Inr (Some m') \<and> walk m' qs = Inr (Some m)"
      by (rule Cons.IH)
    then show ?thesis unfolding InteriorNode by (simp add: c)
  qed
qed

lemma prefix_rows:
  assumes "walk n (ps @ qs) = Inr (Some (Leaf v))"
  shows "\<exists>rs. rows n ps (\<lambda>x. True) = Inr rs \<and> v \<in> set rs"
proof -
  from walk_split[OF assms] obtain m' where w: "walk n ps = Inr (Some m')"
    and l: "walk m' qs = Inr (Some (Leaf v))" by blast
  from l have "v \<in> set (subtree_values m')" by (rule walk_leaf_in_subtree)
  moreover from w have "rows n ps (\<lambda>x. True) = Inr (subtree_values m')"
    by (simp add: rows_def subtree_values_def)
  ultimately show ?thesis by simp
qed

lemma add_then_prefix_rows:
  assumes "add t s v = (Inr (), t')"
    and "signature_to_elements s = Inr (ps @ qs)"
    and "signature_to_elements p = Inr ps"
    and "last ps \<noteq> ''*''" and "last ps \<noteq> ''**''"
  shows "\<exists>rs. fst (get_matching_rows t' p) = Inr rs \<and> v \<in> set rs"
proof -
  from assms(1) obtain nodes elements where t: "t = InteriorNode nodes"
    and els: "signature_to_elements s = Inr elements"
    and aw: "add_walk (InteriorNode nodes) (butlast elements) (last elements) v = (Inr (), t')"
    by (rule add_Inr_D)
  from els assms(2) have e: "elements = ps @ qs" by simp
  from add_walk_kind[OF aw] obtain nodes' where t': "t' = InteriorNode nodes'" ..
  have ne: "elements \<noteq> []" using els by (rule signature_to_elements_not_Nil)
  have "walk t' (butlast elements @ [last elements]) = Inr (Some (Leaf v))"
    using aw by (rule add_walk_then_walk)
  then have "walk t' elements = Inr (Some (Leaf v))"
    unfolding append_butlast_last_id[OF ne] .
  then have "walk t' (ps @ qs) = Inr (Some (Leaf v))"
    unfolding e .
  then have "\<exists>rs. rows t' ps (\<lambda>x. True) = Inr rs \<and> v \<in> set rs" by (rule prefix_rows)
  moreover have "fst (get_matching_rows t' p) = rows t' ps (\<lambda>x. True)"
    unfolding t' gmr_rows[OF assms(3)] using assms(4,5) by simp
  ultimately show ?thesis by simp
qed

lemma eval_els_Inner:
  "signature_to_elements ''Lpkg/Outer$Inner;->m()V'' =
     Inr [''package:pkg'', ''class:Outer'', ''class:Inner'', ''member:m()V'']"
  by (simp add: signature_to_elements_def removeprefix_def Let_def)

lemma eval_els_Outer_pat:
  "signature_to_elements ''Lpkg/Outer'' = Inr [''package:pkg'', ''class:Outer'']"
  by (simp add: signature_to_elements_def removeprefix_def Let_def)

lemma eval_els_Inner_pat:
  "signature_to_elements ''Lpkg/Outer$Inner'' = Inr [''package:pkg'', ''class:Outer'', ''class:Inner'']"
  by (simp add: signature_to_elements_def removeprefix_def Let_def)

lemma eval_add_Inner:
  "add signature_trie ''Lpkg/Outer$Inner;->m()V'' v =
     (Inr (), InteriorNode [(''package:pkg'', InteriorNode [(''class:Outer'',
        InteriorNode [(''class:Inner'', InteriorNode [(''member:m()V'', Leaf v)])])])])"
  by (simp add: signature_trie_def eval_els_Inner add_walk_Cons startswith_def)

lemma eval_gmr_Outer:
  "fst (get_matching_rows (InteriorNode [(''package:pkg'', InteriorNode [(''class:Outer'',
        InteriorNode [(''class:Inner'', InteriorNode [(''member:m()V'', Leaf v)])])])])
     ''Lpkg/Outer'') = Inr [v]"
  unfolding gmr_rows[OF eval_els_Outer_pat]
  by (simp add: rows_Cons rows_Nil rows_Interior subtree_values_Interior subtree_values_Leaf)

lemma eval_gmr_Inner:
  "fst (get_matching_rows (InteriorNode [(''package:pkg'', InteriorNode [(''class:Outer'',
        InteriorNode [(''class:Inner'', InteriorNode [(''member:m()V'', Leaf v)])])])])
     ''Lpkg/Outer$Inner'') = Inr [v]"
  unfolding gmr_rows[OF eval_els_Inner_pat]
  by (simp add: rows_Cons rows_Nil rows_Interior subtree_values_Interior subtree_values_Leaf)

subsection \<open>A walk that meets a missing child\<close>

lemma walk_missing:
  assumes "i < length ws"
    and "walk n (take i ws) = Inr (Some (InteriorNode d))"
    and "map_of d (ws ! i) = None"
  shows "walk n ws = Inr None"
proof -
  from assms(1) have "ws = take i ws @ ws ! i # drop (Suc i) ws"
    by (rule id_take_nth_drop)
  then have "walk n ws = walk n (take i ws @ ws ! i # drop (Suc i) ws)" by simp
  also have "\<dots> = walk (InteriorNode d) (ws ! i # drop (Suc i) ws)"
    using assms(2) by (rule walk_append)
  also have "\<dots> = Inr None" using assms(3) by simp
  finally show ?thesis .
qed

lemma eval_els_nosuch:
  "signature_to_elements ''Lnosuch/Pkg'' = Inr [''package:nosuch'', ''class:Pkg'']"
  by (simp add: signature_to_elements_def removeprefix_def Let_def)

lemma eval_els_Nope:
  "signature_to_elements ''Lpkg/Nope'' = Inr [''package:pkg'', ''class:Nope'']"
  by (simp add: signature_to_elements_def removeprefix_def Let_def)

lemma eval_els_sub_star:
  "signature_to_elements ''Lpkg/sub/*'' = Inr [''package:pkg'', ''package:sub'', ''*'']"
  by (simp add: signature_to_elements_def removeprefix_def Let_def)

subsection \<open>\<open>split\<close> and the first occurrence of the separator\<close>

lemma split_no_sep: "\<not> sublist sep s \<Longrightarrow> split sep s = [s]"
proof (induction s)
  case Nil
  show ?case by simp
next
  case (Cons c cs)
  from Cons.prems have np: "\<not> prefix sep (c # cs)" and ns: "\<not> sublist sep cs"
    by (simp_all add: sublist_Cons_right)
  from ns have "split sep cs = [cs]" by (rule Cons.IH)
  with np show ?case by simp
qed

lemma split_at_sep:
  assumes "sep \<noteq> []"
  shows "split sep (sep @ rest) = [] # split sep rest"
proof -
  from assms obtain c sep' where sep: "sep = c # sep'" by (cases sep) auto
  have "split sep (c # (sep' @ rest)) = [] # split sep (drop (length sep - 1) (sep' @ rest))"
    unfolding sep by simp
  then show ?thesis unfolding sep by simp
qed

lemma split_first:
  assumes "sep \<noteq> []"
  shows "\<not> sublist sep (pre @ butlast sep) \<Longrightarrow> split sep (pre @ sep @ rest) = pre # split sep rest"
proof (induction pre)
  case Nil
  show ?case using split_at_sep[OF assms] by simp
next
  case (Cons c pre)
  from Cons.prems have np: "\<not> prefix sep (c # pre @ butlast sep)"
    and ns: "\<not> sublist sep (pre @ butlast sep)"
    by (simp_all add: sublist_Cons_right)
  have "\<not> prefix sep (c # pre @ sep @ rest)"
  proof
    assume p: "prefix sep (c # pre @ sep @ rest)"
    have "c # pre @ sep @ rest = (c # pre @ butlast sep) @ (last sep # rest)"
      using assms by simp
    then have "prefix (c # pre @ butlast sep) (c # pre @ sep @ rest)"
      by (metis prefixI)
    with p have "prefix sep (c # pre @ butlast sep)"
      by (rule prefix_length_prefix) (use assms in simp)
    with np show False ..
  qed
  moreover from ns have "split sep (pre @ sep @ rest) = pre # split sep rest" by (rule Cons.IH)
  ultimately show ?case by simp
qed

subsection \<open>\<open>split\<close> and \<open>join\<close>\<close>

lemma join_Cons: "ps \<noteq> [] \<Longrightarrow> join sep (p # ps) = p @ sep @ join sep ps"
  by (cases ps) simp_all

lemma join_snoc: "xs \<noteq> [] \<Longrightarrow> join sep (xs @ [y]) = join sep xs @ sep @ y"
proof (induction xs)
  case Nil
  then show ?case by simp
next
  case (Cons x xs)
  show ?case
  proof (cases "xs = []")
    case True
    then show ?thesis by simp
  next
    case False
    then have "join sep (xs @ [y]) = join sep xs @ sep @ y" by (rule Cons.IH)
    with False show ?thesis by (simp add: join_Cons)
  qed
qed

lemma join_split: "sep \<noteq> [] \<Longrightarrow> join sep (split sep s) = s"
proof (induction sep s rule: split.induct)
  case (1 sep)
  show ?case by simp
next
  case (2 sep c cs)
  show ?case
  proof (cases "prefix sep (c # cs)")
    case True
    from True "2.prems"
    have IH: "join sep (split sep (drop (length sep - 1) cs)) = drop (length sep - 1) cs"
      by (rule "2.IH"(1))
    from True have "c # cs = sep @ drop (length sep) (c # cs)"
      by (metis append_eq_conv_conj prefix_def)
    moreover from "2.prems" have "drop (length sep) (c # cs) = drop (length sep - 1) cs"
      by (cases sep) simp_all
    ultimately have cs: "c # cs = sep @ drop (length sep - 1) cs" by simp
    have "join sep (split sep (c # cs)) = join sep ([] # split sep (drop (length sep - 1) cs))"
      using True by simp
    also have "\<dots> = [] @ sep @ join sep (split sep (drop (length sep - 1) cs))"
      by (rule join_Cons) (rule split_not_Nil)
    also have "\<dots> = sep @ drop (length sep - 1) cs" using IH by simp
    finally show ?thesis using cs by simp
  next
    case False
    from False "2.prems" have IH: "join sep (split sep cs) = cs" by (rule "2.IH"(2))
    obtain p ps where sp: "split sep cs = p # ps"
      using split_not_Nil[of sep cs] by (cases "split sep cs") auto
    have "join sep ((c # p) # ps) = c # join sep (p # ps)"
      by (cases ps) simp_all
    with False sp IH show ?thesis by simp
  qed
qed

lemma hd_split_no_sep:
  "sep \<noteq> [] \<Longrightarrow> tl (split sep s) \<noteq> [] \<Longrightarrow> \<not> sublist sep (hd (split sep s) @ butlast sep)"
proof (induction s)
  case Nil
  then show ?case by simp
next
  case (Cons c cs)
  show ?case
  proof (cases "prefix sep (c # cs)")
    case True
    then have "hd (split sep (c # cs)) = []" by simp
    moreover have "\<not> sublist sep (butlast sep)"
    proof
      assume "sublist sep (butlast sep)"
      then have "length sep \<le> length (butlast sep)" by (rule sublist_length_le)
      moreover from Cons.prems(1) have "0 < length sep" by simp
      ultimately show False by (simp only: length_butlast)
    qed
    ultimately show ?thesis by simp
  next
    case False
    obtain p ps where sp: "split sep cs = p # ps"
      using split_not_Nil[of sep cs] by (cases "split sep cs") auto
    from False sp have s: "split sep (c # cs) = (c # p) # ps" by simp
    with Cons.prems(2) have ps: "ps \<noteq> []" by simp
    with sp have "tl (split sep cs) \<noteq> []" by simp
    with Cons.prems(1) have "\<not> sublist sep (hd (split sep cs) @ butlast sep)" by (rule Cons.IH)
    with sp have ns: "\<not> sublist sep (p @ butlast sep)" by simp
    have "cs = join sep (p # ps)" using join_split[OF Cons.prems(1), of cs] sp by simp
    also have "\<dots> = p @ sep @ join sep ps" using ps by (rule join_Cons)
    finally have cs: "cs = p @ sep @ join sep ps" .
    have np: "\<not> prefix sep (c # p @ butlast sep)"
    proof
      assume a: "prefix sep (c # p @ butlast sep)"
      have "c # cs = (c # p @ butlast sep) @ (last sep # join sep ps)"
        using cs Cons.prems(1) by simp
      then have "prefix (c # p @ butlast sep) (c # cs)" by (metis prefixI)
      with a have "prefix sep (c # cs)" by (rule prefix_order.trans)
      with False show False ..
    qed
    from np ns have "\<not> sublist sep (c # p @ butlast sep)" by (simp add: sublist_Cons_right)
    with s show ?thesis by simp
  qed
qed

lemma split_char_snoc: "c \<notin> set w \<Longrightarrow> split [c] (q @ c # w) = split [c] q @ [w]"
proof (induction q)
  case Nil
  then have "\<not> sublist [c] w" by (auto simp: sublist_def)
  then have "split [c] w = [w]" by (rule split_no_sep)
  then show ?case by simp
next
  case (Cons x q)
  then have IH: "split [c] (q @ c # w) = split [c] q @ [w]" by simp
  obtain p ps where sp: "split [c] q = p # ps"
    using split_not_Nil[of "[c]" q] by (cases "split [c] q") auto
  show ?case
  proof (cases "x = c")
    case True
    have "split [c] (c # (q @ c # w)) = [] # split [c] (q @ c # w)" by simp
    also have "\<dots> = [] # split [c] q @ [w]" unfolding IH by simp
    also have "\<dots> = split [c] (c # q) @ [w]" by simp
    finally show ?thesis unfolding True by simp
  next
    case False
    have "split [c] (x # (q @ c # w)) = (x # p) # ps @ [w]"
      using False by (simp add: IH sp)
    also have "\<dots> = split [c] (x # q) @ [w]" using False by (simp add: sp)
    finally show ?thesis by simp
  qed
qed

lemma last_split_char:
  assumes "c \<notin> set w"
  shows "last (split [c] s) = w \<longleftrightarrow> s = w \<or> suffix (c # w) s"
proof
  assume l: "last (split [c] s) = w"
  have j: "join [c] (split [c] s) = s" by (rule join_split) simp
  have "split [c] s = butlast (split [c] s) @ [w]"
    using l split_not_Nil[of "[c]" s] by (metis append_butlast_last_id)
  show "s = w \<or> suffix (c # w) s"
  proof (cases "butlast (split [c] s) = []")
    case True
    with \<open>split [c] s = butlast (split [c] s) @ [w]\<close> have "split [c] s = [w]" by simp
    with j show ?thesis by simp
  next
    case False
    then have "join [c] (butlast (split [c] s) @ [w]) = join [c] (butlast (split [c] s)) @ [c] @ w"
      by (rule join_snoc)
    with \<open>split [c] s = butlast (split [c] s) @ [w]\<close> j
    have "s = join [c] (butlast (split [c] s)) @ c # w" by simp
    then have "suffix (c # w) s" by (metis suffixI)
    then show ?thesis ..
  qed
next
  assume "s = w \<or> suffix (c # w) s"
  then show "last (split [c] s) = w"
  proof
    assume "s = w"
    moreover from assms have "\<not> sublist [c] w" by (auto simp: sublist_def)
    then have "split [c] w = [w]" by (rule split_no_sep)
    ultimately show ?thesis by simp
  next
    assume "suffix (c # w) s"
    then obtain q where "s = q @ c # w" by (auto simp: suffix_def)
    with assms show ?thesis by (simp add: split_char_snoc)
  qed
qed

subsection \<open>The decomposition in terms of the text\<close>

lemma butlast_member_sep: "butlast '';->'' = '';-''"
  by simp

lemma elements_at_first_sep:
  assumes "removeprefix ''L'' s = cls @ '';->'' @ rest"
    and "\<not> sublist '';->'' (cls @ '';-'')"
  shows "signature_to_elements s =
     (if last (split ''/'' cls) = ''*'' \<or> last (split ''/'' cls) = ''**'' then Inl MalformedPattern
      else Inr (map (\<lambda>x. ''package:'' @ x) (butlast (split ''/'' cls))
                @ map (\<lambda>x. ''class:'' @ x) (split ''$'' (last (split ''/'' cls)))
                @ map (\<lambda>x. ''member:'' @ x) (split '';->'' rest)))"
proof -
  have "split '';->'' (cls @ '';->'' @ rest) = cls # split '';->'' rest"
  proof (rule split_first)
    show "'';->'' \<noteq> []" by simp
    show "\<not> sublist '';->'' (cls @ butlast '';->'')"
      unfolding butlast_member_sep by (rule assms(2))
  qed
  then have "split '';->'' (removeprefix ''L'' s) = cls # split '';->'' rest"
    unfolding assms(1) .
  then show ?thesis
    unfolding signature_to_elements_def Let_def by (simp add: split_not_Nil)
qed

lemma elements_no_sep:
  assumes "\<not> sublist '';->'' (removeprefix ''L'' s)"
  shows "signature_to_elements s =
     (let cls = removeprefix ''L'' s in
      if last (split ''/'' cls) = ''*'' \<or> last (split ''/'' cls) = ''**''
      then Inr (map (\<lambda>x. ''package:'' @ x) (butlast (split ''/'' cls)) @ [last (split ''/'' cls)])
      else Inr (map (\<lambda>x. ''package:'' @ x) (butlast (split ''/'' cls))
                @ map (\<lambda>x. ''class:'' @ x) (split ''$'' (last (split ''/'' cls)))))"
proof -
  from assms have "split '';->'' (removeprefix ''L'' s) = [removeprefix ''L'' s]"
    by (rule split_no_sep)
  then show ?thesis
    unfolding signature_to_elements_def Let_def by simp
qed

lemma wildcard_class_name:
  "last (split ''/'' cls) = ''*'' \<or> last (split ''/'' cls) = ''**''
     \<longleftrightarrow> cls = ''*'' \<or> cls = ''**'' \<or> suffix ''/*'' cls \<or> suffix ''/**'' cls"
proof -
  have 1: "last (split ''/'' cls) = ''*'' \<longleftrightarrow> cls = ''*'' \<or> suffix ''/*'' cls"
    using last_split_char[of "CHR ''/''" "''*''" cls] by simp
  have 2: "last (split ''/'' cls) = ''**'' \<longleftrightarrow> cls = ''**'' \<or> suffix ''/**'' cls"
    using last_split_char[of "CHR ''/''" "''**''" cls] by simp
  from 1 2 show ?thesis by blast
qed

lemma malformed_iff:
  "signature_to_elements s = Inl e \<longleftrightarrow>
     e = MalformedPattern
     \<and> (\<exists>cls rest. removeprefix ''L'' s = cls @ '';->'' @ rest
           \<and> \<not> sublist '';->'' (cls @ '';-'')
           \<and> (cls = ''*'' \<or> cls = ''**'' \<or> suffix ''/*'' cls \<or> suffix ''/**'' cls))"
proof
  assume f: "signature_to_elements s = Inl e"
  define parts where "parts = split '';->'' (removeprefix ''L'' s)"
  have tl: "tl parts \<noteq> []"
  proof
    assume "tl parts = []"
    then have "length (tl parts) = 0" by (simp only: list.size)
    with f show False
      unfolding signature_to_elements_def Let_def parts_def[symmetric]
      by (simp only: split: if_splits) simp_all
  qed
  from f have e: "e = MalformedPattern"
    and w: "last (split ''/'' (hd parts)) = ''*'' \<or> last (split ''/'' (hd parts)) = ''**''"
    unfolding signature_to_elements_def Let_def parts_def[symmetric]
    by (auto split: if_splits)
  have ne: "parts \<noteq> []" unfolding parts_def by (rule split_not_Nil)
  have "removeprefix ''L'' s = join '';->'' parts"
    unfolding parts_def by (rule join_split[symmetric]) simp
  also from ne have "parts = hd parts # tl parts" by simp
  also have "join '';->'' (hd parts # tl parts) = hd parts @ '';->'' @ join '';->'' (tl parts)"
    using tl by (rule join_Cons)
  finally have t: "removeprefix ''L'' s = hd parts @ '';->'' @ join '';->'' (tl parts)" .
  have "\<not> sublist '';->'' (hd parts @ butlast '';->'')"
    unfolding parts_def
  proof (rule hd_split_no_sep)
    show "'';->'' \<noteq> []" by simp
    show "tl (split '';->'' (removeprefix ''L'' s)) \<noteq> []" using tl unfolding parts_def .
  qed
  then have n: "\<not> sublist '';->'' (hd parts @ '';-'')" unfolding butlast_member_sep .
  from w have "hd parts = ''*'' \<or> hd parts = ''**'' \<or> suffix ''/*'' (hd parts)
    \<or> suffix ''/**'' (hd parts)"
    unfolding wildcard_class_name .
  with e t n show "e = MalformedPattern
     \<and> (\<exists>cls rest. removeprefix ''L'' s = cls @ '';->'' @ rest
           \<and> \<not> sublist '';->'' (cls @ '';-'')
           \<and> (cls = ''*'' \<or> cls = ''**'' \<or> suffix ''/*'' cls \<or> suffix ''/**'' cls))"
    by blast
next
  assume "e = MalformedPattern
     \<and> (\<exists>cls rest. removeprefix ''L'' s = cls @ '';->'' @ rest
           \<and> \<not> sublist '';->'' (cls @ '';-'')
           \<and> (cls = ''*'' \<or> cls = ''**'' \<or> suffix ''/*'' cls \<or> suffix ''/**'' cls))"
  then obtain cls rest where e: "e = MalformedPattern"
    and t: "removeprefix ''L'' s = cls @ '';->'' @ rest"
    and n: "\<not> sublist '';->'' (cls @ '';-'')"
    and w: "cls = ''*'' \<or> cls = ''**'' \<or> suffix ''/*'' cls \<or> suffix ''/**'' cls"
    by blast
  from w have "last (split ''/'' cls) = ''*'' \<or> last (split ''/'' cls) = ''**''"
    unfolding wildcard_class_name .
  then show "signature_to_elements s = Inl e"
    unfolding elements_at_first_sep[OF t n] e by simp
qed

lemma add_walk_not_malformed: "fst (add_walk n es l v) \<noteq> Inl MalformedPattern"
proof (induction es arbitrary: n)
  case Nil
  show ?case by (cases n) simp_all
next
  case (Cons a es)
  show ?case
  proof (cases n)
    case (Leaf x)
    then show ?thesis by (simp add: add_walk_Leaf)
  next
    case (InteriorNode nodes)
    show ?thesis unfolding InteriorNode add_walk_Cons fst_conv by (rule Cons.IH)
  qed
qed

lemma walk_error: "walk n es = Inl e \<Longrightarrow> e = AttributeError"
proof (induction es arbitrary: n)
  case Nil
  then show ?case by simp
next
  case (Cons a es)
  show ?case
  proof (cases n)
    case (Leaf x)
    with Cons.prems show ?thesis by simp
  next
    case (InteriorNode nodes)
    show ?thesis
    proof (cases "map_of nodes a")
      case None
      with Cons.prems InteriorNode show ?thesis by simp
    next
      case (Some child)
      with Cons.prems InteriorNode have "walk child es = Inl e" by simp
      then show ?thesis by (rule Cons.IH)
    qed
  qed
qed

lemma add_malformed_iff:
  "fst (add (InteriorNode nodes) s v) = Inl MalformedPattern
     \<longleftrightarrow> signature_to_elements s = Inl MalformedPattern"
proof (cases "signature_to_elements s")
  case (Inl e)
  then show ?thesis by simp
next
  case (Inr elements)
  then show ?thesis by (simp add: add_walk_not_malformed)
qed

lemma rows_error: "rows n es sel = Inl e \<Longrightarrow> e = AttributeError"
  unfolding rows_def by (auto split: sum.splits option.splits dest: walk_error)

lemma gmr_malformed_iff:
  "fst (get_matching_rows (InteriorNode nodes) s) = Inl MalformedPattern
     \<longleftrightarrow> signature_to_elements s = Inl MalformedPattern"
proof (cases "signature_to_elements s")
  case (Inl e)
  then show ?thesis by simp
next
  case (Inr elements)
  show ?thesis unfolding gmr_rows[OF Inr] using rows_error Inr by fastforce
qed

subsection \<open>Walks that cannot run into a leaf\<close>

lemma leaves_under_members_update:
  assumes "leaves_under_members (InteriorNode nodes)" and "leaves_under_members c"
    and "\<And>x. c = Leaf x \<Longrightarrow> startswith k ''member:''"
  shows "leaves_under_members (InteriorNode (AList.update k c nodes))"
proof -
  have "(case snd item of Leaf x \<Rightarrow> startswith (fst item) ''member:'' | InteriorNode ns \<Rightarrow> True)
      \<and> leaves_under_members (snd item)"
    if "item \<in> set (AList.update k c nodes)" for item
  proof -
    from that set_update_subset[of k c nodes] have "item = (k, c) \<or> item \<in> set nodes" by auto
    then show ?thesis
    proof
      assume "item = (k, c)"
      with assms(2,3) show ?thesis by (cases c) simp_all
    next
      assume "item \<in> set nodes"
      with assms(1) show ?thesis by (simp add: list_all_iff)
    qed
  qed
  then show ?thesis by (simp add: list_all_iff)
qed

lemma leaves_under_members_child:
  assumes "leaves_under_members (InteriorNode nodes)" and "map_of nodes k = Some child"
  shows "leaves_under_members child"
    and "\<And>x. child = Leaf x \<Longrightarrow> startswith k ''member:''"
proof -
  from assms(2) have "(k, child) \<in> set nodes" by (rule map_of_SomeD)
  with assms(1) have "(case snd (k, child) of Leaf x \<Rightarrow> startswith (fst (k, child)) ''member:''
        | InteriorNode ns \<Rightarrow> True)
      \<and> leaves_under_members (snd (k, child))"
    unfolding leaves_under_members.simps list_all_iff by (rule bspec)
  then show "leaves_under_members child" and "\<And>x. child = Leaf x \<Longrightarrow> startswith k ''member:''"
    by (cases child; simp)+
qed

lemma add_walk_Leaf_any: "snd (add_walk (Leaf x) es l v) = Leaf x"
  by (cases es) (simp_all add: add_walk_Leaf)

lemma add_walk_leaves_under_members:
  "leaves_under_members n \<Longrightarrow> leaves_under_members (snd (add_walk n es l v))"
proof (induction es arbitrary: n)
  case Nil
  show ?case
  proof (cases n)
    case (Leaf x)
    then show ?thesis by simp
  next
    case (InteriorNode nodes)
    show ?thesis
    proof (cases "startswith l ''member:''")
      case True
      have "leaves_under_members (InteriorNode (AList.update l (Leaf v) nodes))"
        using Nil[unfolded InteriorNode] by (rule leaves_under_members_update) (simp_all add: True)
      with Nil show ?thesis unfolding InteriorNode by simp
    next
      case False
      with Nil show ?thesis unfolding InteriorNode by simp
    qed
  qed
next
  case (Cons a es)
  show ?case
  proof (cases n)
    case (Leaf x)
    then show ?thesis by (simp add: add_walk_Leaf)
  next
    case (InteriorNode nodes)
    let ?c = "case map_of nodes a of Some child \<Rightarrow> child | None \<Rightarrow> InteriorNode []"
    let ?c' = "snd (add_walk ?c es l v)"
    have c: "leaves_under_members ?c"
    proof (cases "map_of nodes a")
      case None
      then show ?thesis by simp
    next
      case (Some child)
      with leaves_under_members_child(1)[OF Cons.prems[unfolded InteriorNode] Some]
      show ?thesis by simp
    qed
    then have c': "leaves_under_members ?c'" by (rule Cons.IH)
    have k: "startswith a ''member:''" if l: "?c' = Leaf x" for x
    proof (cases "map_of nodes a")
      case None
      from add_walk_kind[of "[]" es l v "fst (add_walk (InteriorNode []) es l v)"
          "snd (add_walk (InteriorNode []) es l v)"]
      obtain ns where "snd (add_walk (InteriorNode []) es l v) = InteriorNode ns" by auto
      with l None show ?thesis by simp
    next
      case (Some child)
      show ?thesis
      proof (cases child)
        case (Leaf y)
        with Some leaves_under_members_child(2)[OF Cons.prems[unfolded InteriorNode] Some]
        show ?thesis by simp
      next
        case (InteriorNode kids)
        from add_walk_kind[of kids es l v "fst (add_walk (InteriorNode kids) es l v)"
            "snd (add_walk (InteriorNode kids) es l v)"]
        obtain ns where "snd (add_walk (InteriorNode kids) es l v) = InteriorNode ns" by auto
        with l Some InteriorNode show ?thesis by simp
      qed
    qed
    from Cons.prems[unfolded InteriorNode] c' k
    have "leaves_under_members (InteriorNode (AList.update a ?c' nodes))"
      by (rule leaves_under_members_update)
    then show ?thesis unfolding InteriorNode add_walk_Cons by simp
  qed
qed

lemma add_leaves_under_members:
  "leaves_under_members t \<Longrightarrow> leaves_under_members (snd (add t s v))"
proof (cases t)
  case (Leaf x)
  then show ?thesis by simp
next
  case (InteriorNode nodes)
  assume "leaves_under_members t"
  then show ?thesis unfolding InteriorNode
    by (cases "signature_to_elements s")
      (simp_all add: add_walk_leaves_under_members del: leaves_under_members.simps)
qed

lemma add_all_leaves_under_members:
  "leaves_under_members t \<Longrightarrow> leaves_under_members (fst (add_all t ops))"
proof (induction ops arbitrary: t)
  case Nil
  then show ?case by simp
next
  case (Cons sv ops)
  obtain r t1 where a: "add t (fst sv) (snd sv) = (r, t1)" by (cases "add t (fst sv) (snd sv)")
  from Cons.prems have "leaves_under_members (snd (add t (fst sv) (snd sv)))"
    by (rule add_leaves_under_members)
  with a have "leaves_under_members t1" by simp
  then have IH: "leaves_under_members (fst (add_all t1 ops))" by (rule Cons.IH)
  show ?case
  proof (cases r)
    case (Inl e)
    with a IH show ?thesis by simp
  next
    case (Inr u)
    with a IH show ?thesis by (auto split: prod.split)
  qed
qed

lemma walk_no_error:
  "leaves_under_members (InteriorNode nodes)
     \<Longrightarrow> list_all (\<lambda>e. \<not> startswith e ''member:'') (butlast es)
     \<Longrightarrow> \<exists>m. walk (InteriorNode nodes) es = Inr m"
proof (induction es arbitrary: nodes)
  case Nil
  show ?case by simp
next
  case (Cons a es)
  show ?case
  proof (cases "map_of nodes a")
    case None
    then show ?thesis by simp
  next
    case (Some child)
    show ?thesis
    proof (cases "es = []")
      case True
      with Some show ?thesis by simp
    next
      case False
      with Cons.prems(2) have a: "\<not> startswith a ''member:''"
        and rest: "list_all (\<lambda>e. \<not> startswith e ''member:'') (butlast es)"
        by simp_all
      from leaves_under_members_child(2)[OF Cons.prems(1) Some] a
      obtain kids where k: "child = InteriorNode kids" by (cases child) auto
      from leaves_under_members_child(1)[OF Cons.prems(1) Some]
      have "leaves_under_members (InteriorNode kids)" unfolding k .
      then have "\<exists>m. walk (InteriorNode kids) es = Inr m" using rest by (rule Cons.IH)
      then show ?thesis by (simp add: Some k)
    qed
  qed
qed

lemma walked_member_free:
  assumes "signature_to_elements p = Inr elements"
    and "length (split '';->'' (removeprefix ''L'' p)) \<le> 2"
  shows "list_all (\<lambda>e. \<not> startswith e ''member:'')
     (butlast (if last elements = ''*'' \<or> last elements = ''**''
               then butlast elements else elements))"
proof -
  define parts where "parts = split '';->'' (removeprefix ''L'' p)"
  define els where "els = split ''/'' (hd parts)"
  define P where "P = map (\<lambda>x. ''package:'' @ x) (butlast els)"
  define C where "C = map (\<lambda>x. ''class:'' @ x) (split ''$'' (last els))"
  define M where "M = map (\<lambda>x. ''member:'' @ x) (tl parts)"
  have P: "list_all (\<lambda>e. \<not> startswith e ''member:'') P"
    unfolding P_def by (simp add: list_all_iff startswith_def)
  have C: "list_all (\<lambda>e. \<not> startswith e ''member:'') C"
    unfolding C_def by (simp add: list_all_iff startswith_def)
  have Cne: "C \<noteq> []" unfolding C_def by (simp add: split_not_Nil)
  have lastC: "last C \<noteq> ''*'' \<and> last C \<noteq> ''**''"
    using Cne unfolding C_def by (auto simp: last_map)
  from assms(2) have "length (tl parts) \<le> 1"
    unfolding parts_def[symmetric] by simp
  then have "tl parts = [] \<or> (\<exists>x. tl parts = [x])"
    by (cases "tl parts") auto
  then have M: "M = [] \<or> (\<exists>m. M = [m] \<and> startswith m ''member:'')"
    unfolding M_def by (auto simp: startswith_def)
  have butP: "list_all (\<lambda>e. \<not> startswith e ''member:'') (butlast P)"
    using P by (auto simp: list_all_iff dest: in_set_butlastD)
  show ?thesis
  proof (cases "last els = ''*'' \<or> last els = ''**''")
    case True
    with assms(1) have "elements = P @ [last els]"
      unfolding signature_to_elements_def Let_def parts_def[symmetric] els_def[symmetric] P_def
      by (auto split: if_splits)
    with True butP show ?thesis by auto
  next
    case False
    with assms(1) have e: "elements = P @ C @ M"
      unfolding signature_to_elements_def Let_def parts_def[symmetric] els_def[symmetric]
        P_def C_def M_def
      by (auto split: if_splits)
    from M show ?thesis
    proof
      assume m: "M = []"
      with e Cne lastC have "last elements \<noteq> ''*'' \<and> last elements \<noteq> ''**''" by simp
      moreover have "list_all (\<lambda>e. \<not> startswith e ''member:'') (butlast (P @ C))"
      proof -
        from P C have "list_all (\<lambda>e. \<not> startswith e ''member:'') (P @ C)" by simp
        then show ?thesis unfolding list_all_iff by (blast dest: in_set_butlastD)
      qed
      ultimately show ?thesis using e m by simp
    next
      assume "\<exists>m. M = [m] \<and> startswith m ''member:''"
      then obtain m where m: "M = [m]" and sm: "startswith m ''member:''" by blast
      from member_not_wildcard[OF sm] e m
      have "last elements \<noteq> ''*'' \<and> last elements \<noteq> ''**''" by simp
      moreover have "butlast elements = P @ C" using e m by (simp add: butlast_append)
      ultimately show ?thesis using P C by simp
    qed
  qed
qed

lemma gmr_no_attribute_error:
  assumes "leaves_under_members (InteriorNode nodes)"
    and "length (split '';->'' (removeprefix ''L'' p)) \<le> 2"
  shows "fst (get_matching_rows (InteriorNode nodes) p) \<noteq> Inl AttributeError"
proof (cases "signature_to_elements p")
  case (Inl e)
  then have "e = MalformedPattern" using malformed_iff by blast
  with Inl show ?thesis by simp
next
  case (Inr elements)
  let ?walked = "if last elements = ''*'' \<or> last elements = ''**''
    then butlast elements else elements"
  from Inr assms(2) have "list_all (\<lambda>e. \<not> startswith e ''member:'') (butlast ?walked)"
    by (rule walked_member_free)
  with assms(1) have "\<exists>m. walk (InteriorNode nodes) ?walked = Inr m"
    by (rule walk_no_error)
  then obtain m where "walk (InteriorNode nodes) ?walked = Inr m" ..
  then show ?thesis unfolding gmr_rows[OF Inr] rows_def by (simp split: option.split)
qed

subsection \<open>The store: what a query writes, and what it returns\<close>

lemma append_h_frame:
  "append_values_h fuel h self vals sel = Some h'
     \<Longrightarrow> length h' = length h \<and> (\<forall>b. b \<noteq> vals \<longrightarrow> h' ! b = h ! b)"
  "append_items_h fuel h items vals sel = Some h'
     \<Longrightarrow> length h' = length h \<and> (\<forall>b. b \<noteq> vals \<longrightarrow> h' ! b = h ! b)"
proof (induction fuel h self vals sel and fuel h items vals sel arbitrary: h' and h'
    rule: append_values_h_append_items_h.induct)
  case (1 h self vals selector)
  then show ?case by simp
next
  case (2 fuel h self vals selector)
  show ?case
  proof (cases "deref h self")
    case None
    with "2.prems" show ?thesis by simp
  next
    case (Some ob)
    show ?thesis
    proof (cases ob)
      case (InteriorObj items)
      with Some "2.prems" have "append_items_h fuel h items vals selector = Some h'" by simp
      with Some InteriorObj show ?thesis by (rule "2.IH")
    next
      case (LeafObj x)
      with Some "2.prems" show ?thesis
        by (auto split: option.splits obj.splits)
    next
      case (ListObj vs)
      with Some "2.prems" show ?thesis by simp
    qed
  qed
next
  case (3 fuel h vals selector)
  then show ?case by simp
next
  case (4 fuel h item rest vals selector)
  show ?case
  proof (cases "selector (fst item)")
    case True
    with "4.prems" obtain h1 where a: "append_values_h fuel h (snd item) vals (\<lambda>x. True) = Some h1"
      and b: "append_items_h fuel h1 rest vals selector = Some h'"
      by (auto split: option.splits)
    from True a have 1: "length h1 = length h \<and> (\<forall>b. b \<noteq> vals \<longrightarrow> h1 ! b = h ! b)"
      by (rule "4.IH"(1))
    from True a b have 2: "length h' = length h1 \<and> (\<forall>b. b \<noteq> vals \<longrightarrow> h' ! b = h1 ! b)"
      by (rule "4.IH"(2))
    from 1 2 show ?thesis by simp
  next
    case False
    with "4.prems" have "append_items_h fuel h rest vals selector = Some h'" by simp
    with False show ?thesis by (rule "4.IH"(3))
  qed
qed

lemma values_h_frame:
  assumes "values_h fuel h self sel = Some (vs, h')"
  shows "take (length h) h' = h"
proof (cases "deref h self")
  case None
  with assms show ?thesis by simp
next
  case (Some ob)
  show ?thesis
  proof (cases ob)
    case (LeafObj x)
    with Some assms show ?thesis by simp
  next
    case (ListObj l)
    with Some assms show ?thesis by simp
  next
    case (InteriorObj items)
    with Some assms obtain h2 where
      a: "append_values_h fuel (h @ [ListObj []]) self (length h) sel = Some h2" and h': "h' = h2"
      by (auto simp: Let_def split: option.splits obj.splits)
    from append_h_frame(1)[OF a] have l: "length h2 = Suc (length h)"
      and f: "\<forall>b. b \<noteq> length h \<longrightarrow> h2 ! b = (h @ [ListObj []]) ! b" by simp_all
    have "take (length h) h2 = h"
    proof (rule nth_equalityI)
      show "length (take (length h) h2) = length h" using l by simp
    next
      fix i assume "i < length (take (length h) h2)"
      then have i: "i < length h" by simp
      then have "h2 ! i = (h @ [ListObj []]) ! i" using f by simp
      with i show "take (length h) h2 ! i = h ! i" by (simp add: nth_append)
    qed
    then show ?thesis unfolding h' .
  qed
qed

lemma get_matching_rows_h_frame:
  assumes "get_matching_rows_h fuel h self p = Some (res, h')"
  shows "take (length h) h' = h"
proof (cases "deref h self")
  case None
  with assms show ?thesis by (simp add: get_matching_rows_h_def)
next
  case (Some ob)
  show ?thesis
  proof (cases ob)
    case (LeafObj x)
    with Some assms show ?thesis by (simp add: get_matching_rows_h_def)
  next
    case (ListObj l)
    with Some assms show ?thesis by (simp add: get_matching_rows_h_def)
  next
    case (InteriorObj items)
    show ?thesis
    proof (cases "signature_to_elements p")
      case (Inl e)
      with Some InteriorObj assms show ?thesis by (simp add: get_matching_rows_h_def)
    next
      case (Inr elements)
      let ?w = "if last elements = ''*'' \<or> last elements = ''**'' then butlast elements else elements"
      let ?sel = "if last elements = ''*''
                  then (\<lambda>x. \<not> startswith x ''package:'') else (\<lambda>x. True)"
      from Some InteriorObj Inr assms have g: "(case walk_h h self ?w of
                      None \<Rightarrow> None
                    | Some (Inl e) \<Rightarrow> Some (Inl e, h)
                    | Some (Inr None) \<Rightarrow> Some (Inr [], h)
                    | Some (Inr (Some node)) \<Rightarrow>
                        (case values_h fuel h node ?sel of
                           None \<Rightarrow> None
                         | Some (vs, h') \<Rightarrow> Some (Inr (concat vs), h'))) = Some (res, h')"
        by (simp add: get_matching_rows_h_def Let_def del: values_h.simps)
      show ?thesis
      proof (cases "walk_h h self ?w")
        case None
        with g show ?thesis by simp
      next
        case (Some w)
        show ?thesis
        proof (cases w)
          case (Inl e)
          with Some g show ?thesis by simp
        next
          case (Inr reached)
          show ?thesis
          proof (cases reached)
            case None
            with Some Inr g show ?thesis by simp
          next
            case (Some node)
            with \<open>walk_h h self ?w = Some w\<close> Inr g obtain vs where
              "values_h fuel h node ?sel = Some (vs, h')"
              by (auto split: option.splits simp del: values_h.simps)
            then show ?thesis by (rule values_h_frame)
          qed
        qed
      qed
    qed
  qed
qed

lemma repr_mono:
  assumes "repr h a t"
    and K: "\<And>b ob. deref h b = Some ob \<Longrightarrow> (\<forall>vs. ob \<noteq> ListObj vs) \<Longrightarrow> deref h' b = Some ob"
  shows "repr h' a t"
  using assms(1)
proof (induction rule: repr.induct)
  case (repr_Leaf a x)
  then have "deref h' a = Some (LeafObj x)" by (rule K) simp
  then show ?case by (rule repr.repr_Leaf)
next
  case (repr_Interior a items nodes)
  from repr_Interior(1) have "deref h' a = Some (InteriorObj items)" by (rule K) simp
  moreover from repr_Interior(2)
  have "list_all2 (\<lambda>it nd. fst it = fst nd \<and> repr h' (snd it) (snd nd)) items nodes"
    by (rule list_all2_mono) simp
  ultimately show ?case by (rule repr.repr_Interior)
qed

lemma repr_extend:
  assumes "repr h a t" and "take (length h) h' = h"
  shows "repr h' a t"
  using assms(1)
proof (rule repr_mono)
  fix b ob assume d: "deref h b = Some ob"
  then have b: "b < length h" and ob: "h ! b = ob" by (auto simp: deref_def split: if_splits)
  from assms(2) have "length h \<le> length h'"
    by (metis length_take min.cobounded2 min.commute)
  moreover from b have "take (length h) h' ! b = h' ! b" by simp
  ultimately show "deref h' b = Some ob" using b ob assms(2) by (simp add: deref_def)
qed

lemma repr_update_list:
  assumes "repr h a t" and "deref h vals = Some (ListObj vs)"
  shows "repr (h[vals := ListObj vs']) a t"
  using assms(1)
proof (rule repr_mono)
  fix b ob assume d: "deref h b = Some ob" and n: "\<forall>l. ob \<noteq> ListObj l"
  with assms(2) have "b \<noteq> vals" by auto
  with d show "deref (h[vals := ListObj vs']) b = Some ob"
    by (auto simp: deref_def split: if_splits)
qed

lemma list_all2_map_of:
  assumes "list_all2 (\<lambda>it nd. fst it = fst nd \<and> R (snd it) (snd nd)) items nodes"
  shows "map_of nodes k = None \<Longrightarrow> map_of items k = None"
    and "map_of nodes k = Some n \<Longrightarrow> \<exists>c. map_of items k = Some c \<and> R c n"
  using assms
proof (induction items nodes rule: list_all2_induct)
  case Nil
  { case 1 show ?case by simp }
  { case 2 then show ?case by simp }
next
  case (Cons it items nd nodes)
  { case 1
    with Cons(1) Cons.IH(1) show ?case by (cases it; cases nd) (auto split: if_splits) }
  { case 2
    with Cons(1) Cons.IH(2) show ?case by (cases it; cases nd) (auto split: if_splits) }
qed

lemma walk_h_refines:
  assumes "repr h a t"
  shows "walk t es = Inl e \<Longrightarrow> walk_h h a es = Some (Inl e)"
    and "walk t es = Inr None \<Longrightarrow> walk_h h a es = Some (Inr None)"
    and "walk t es = Inr (Some m) \<Longrightarrow> \<exists>b. walk_h h a es = Some (Inr (Some b)) \<and> repr h b m"
  using assms
proof (induction es arbitrary: a t)
  case Nil
  { case 1 then show ?case by simp }
  { case 2 then show ?case by simp }
  { case 3 then show ?case by auto }
next
  case (Cons x es)
  { case 1
    from 1(2) show ?case
    proof (cases rule: repr.cases)
      case (repr_Leaf y)
      with 1(1) show ?thesis by simp
    next
      case (repr_Interior items nodes)
      with 1(1) obtain n where n: "map_of nodes x = Some n" and w: "walk n es = Inl e"
        by (cases "map_of nodes x") auto
      from list_all2_map_of(2)[OF repr_Interior(3) n] obtain c where
        c: "map_of items x = Some c" and r: "repr h c n" by auto
      from w r have "walk_h h c es = Some (Inl e)" by (rule Cons.IH(1))
      with c repr_Interior show ?thesis by simp
    qed }
  { case 2
    from 2(2) show ?case
    proof (cases rule: repr.cases)
      case (repr_Leaf y)
      with 2(1) show ?thesis by simp
    next
      case (repr_Interior items nodes)
      show ?thesis
      proof (cases "map_of nodes x")
        case None
        from list_all2_map_of(1)[OF repr_Interior(3) None] repr_Interior
        show ?thesis by simp
      next
        case (Some n)
        with 2(1) repr_Interior have w: "walk n es = Inr None" by simp
        from list_all2_map_of(2)[OF repr_Interior(3) Some] obtain c where
          c: "map_of items x = Some c" and r: "repr h c n" by auto
        from w r have "walk_h h c es = Some (Inr None)" by (rule Cons.IH(2))
        with c repr_Interior show ?thesis by simp
      qed
    qed }
  { case 3
    from 3(2) show ?case
    proof (cases rule: repr.cases)
      case (repr_Leaf y)
      with 3(1) show ?thesis by simp
    next
      case (repr_Interior items nodes)
      with 3(1) obtain n where n: "map_of nodes x = Some n" and w: "walk n es = Inr (Some m)"
        by (cases "map_of nodes x") auto
      from list_all2_map_of(2)[OF repr_Interior(3) n] obtain c where
        c: "map_of items x = Some c" and r: "repr h c n" by auto
      from w r have "\<exists>b. walk_h h c es = Some (Inr (Some b)) \<and> repr h b m" by (rule Cons.IH(3))
      with c repr_Interior show ?thesis by simp
    qed }
qed

lemma height_pos: "0 < height t"
  by (cases t) simp_all

lemma height_child:
  "item \<in> set nodes \<Longrightarrow> height (snd item) \<le> foldr max (map (\<lambda>item. height (snd item)) nodes) 0"
  by (induction nodes) auto

lemma walk_height: "walk t es = Inr (Some m) \<Longrightarrow> height m \<le> height t"
proof (induction es arbitrary: t)
  case Nil
  then show ?case by simp
next
  case (Cons e es)
  show ?case
  proof (cases t)
    case (Leaf x)
    with Cons.prems show ?thesis by simp
  next
    case (InteriorNode nodes)
    with Cons.prems obtain child where c: "map_of nodes e = Some child"
      and w: "walk child es = Inr (Some m)"
      by (cases "map_of nodes e") auto
    from w have "height m \<le> height child" by (rule Cons.IH)
    moreover from c have "(e, child) \<in> set nodes" by (rule map_of_SomeD)
    then have "height (snd (e, child)) \<le> foldr max (map (\<lambda>item. height (snd item)) nodes) 0"
      by (rule height_child)
    ultimately show ?thesis unfolding InteriorNode by simp
  qed
qed

lemma update_same_list:
  "deref h vals = Some (ListObj vs) \<Longrightarrow> h[vals := ListObj vs] = h"
proof -
  assume "deref h vals = Some (ListObj vs)"
  then have "h ! vals = ListObj vs" by (auto simp: deref_def split: if_splits)
  then show ?thesis by (metis list_update_id)
qed

lemma deref_update_same:
  "deref h vals = Some ob \<Longrightarrow> deref (h[vals := ob']) vals = Some ob'"
  by (auto simp: deref_def split: if_splits)

lemma append_items_h_refines:
  assumes IH: "\<And>(h :: 'v heap) a t vs sel vals. repr h a t \<Longrightarrow> deref h vals = Some (ListObj vs)
      \<Longrightarrow> height t \<le> fuel
      \<Longrightarrow> append_values_h fuel h a vals sel = Some (h[vals := ListObj (append_values t vs sel)])"
  shows "list_all2 (\<lambda>it nd. fst it = fst nd \<and> repr (h :: 'v heap) (snd it) (snd nd)) items nodes
     \<Longrightarrow> deref h vals = Some (ListObj vs)
     \<Longrightarrow> \<forall>nd \<in> set nodes. height (snd nd) \<le> fuel
     \<Longrightarrow> append_items_h fuel h items vals sel =
          Some (h[vals := ListObj (fold (\<lambda>item values. if sel (fst item)
                   then append_values (snd item) values (\<lambda>x. True) else values) nodes vs)])"
proof (induction items arbitrary: nodes h vs)
  case Nil
  then have "nodes = []" by simp
  with Nil(2) show ?case by (simp add: update_same_list)
next
  case (Cons it items)
  from Cons.prems(1) obtain nd nodes' where nodes: "nodes = nd # nodes'"
    and k: "fst it = fst nd" and r: "repr h (snd it) (snd nd)"
    and rest: "list_all2 (\<lambda>it nd. fst it = fst nd \<and> repr h (snd it) (snd nd)) items nodes'"
    by (auto simp: list_all2_Cons1)
  from Cons.prems(3) nodes have hn: "height (snd nd) \<le> fuel"
    and hr: "\<forall>nd \<in> set nodes'. height (snd nd) \<le> fuel" by simp_all
  let ?f = "\<lambda>item values. if sel (fst item)
                   then append_values (snd item) values (\<lambda>x. True) else values"
  show ?case
  proof (cases "sel (fst it)")
    case True
    let ?vs1 = "append_values (snd nd) vs (\<lambda>x. True)"
    let ?h1 = "h[vals := ListObj ?vs1]"
    from r Cons.prems(2) hn
    have a: "append_values_h fuel h (snd it) vals (\<lambda>x. True) = Some ?h1" by (rule IH)
    have rest1: "list_all2 (\<lambda>it nd. fst it = fst nd \<and> repr ?h1 (snd it) (snd nd)) items nodes'"
      using rest
    proof (rule list_all2_mono)
      fix x :: "string \<times> addr" and y :: "string \<times> 'v node"
      assume "fst x = fst y \<and> repr h (snd x) (snd y)"
      then show "fst x = fst y \<and> repr ?h1 (snd x) (snd y)"
        using repr_update_list[OF _ Cons.prems(2)] by blast
    qed
    have d1: "deref ?h1 vals = Some (ListObj ?vs1)"
      using Cons.prems(2) by (rule deref_update_same)
    from rest1 d1 hr
    have "append_items_h fuel ?h1 items vals sel = Some (?h1[vals := ListObj (fold ?f nodes' ?vs1)])"
      by (rule Cons.IH)
    with a True k show ?thesis unfolding nodes by simp
  next
    case False
    from rest Cons.prems(2) hr
    have "append_items_h fuel h items vals sel = Some (h[vals := ListObj (fold ?f nodes' vs)])"
      by (rule Cons.IH)
    with False k show ?thesis unfolding nodes by simp
  qed
qed

lemma append_values_h_refines:
  "repr h a t \<Longrightarrow> deref h vals = Some (ListObj vs) \<Longrightarrow> height t \<le> fuel
     \<Longrightarrow> append_values_h fuel h a vals sel = Some (h[vals := ListObj (append_values t vs sel)])"
proof (induction fuel arbitrary: h a t vs sel vals)
  case 0
  with height_pos[of t] show ?case by simp
next
  case (Suc fuel)
  from Suc.prems(1) show ?case
  proof (cases rule: repr.cases)
    case (repr_Leaf x)
    with Suc.prems(2) show ?thesis by simp
  next
    case (repr_Interior items nodes)
    have hs: "\<forall>nd \<in> set nodes. height (snd nd) \<le> fuel"
    proof
      fix nd assume "nd \<in> set nodes"
      then have "height (snd nd) \<le> foldr max (map (\<lambda>item. height (snd item)) nodes) 0"
        by (rule height_child)
      with Suc.prems(3) repr_Interior(1) show "height (snd nd) \<le> fuel" by simp
    qed
    have "append_items_h fuel h items vals sel =
          Some (h[vals := ListObj (fold (\<lambda>item values. if sel (fst item)
                   then append_values (snd item) values (\<lambda>x. True) else values) nodes vs)])"
      using repr_Interior(3) Suc.prems(2) hs
    proof (rule append_items_h_refines[rotated])
      fix h :: "'a heap" and a t vs sel vals
      assume "repr h a t" "deref h vals = Some (ListObj vs)" "height t \<le> fuel"
      then show "append_values_h fuel h a vals sel = Some (h[vals := ListObj (append_values t vs sel)])"
        by (rule Suc.IH)
    qed
    with repr_Interior show ?thesis by simp
  qed
qed

lemma values_h_refines:
  assumes "repr h b m" and "height m \<le> fuel"
  shows "\<exists>h'. values_h fuel h b sel = Some (values_of m sel, h')"
  using assms(1)
proof (cases rule: repr.cases)
  case (repr_Leaf x)
  then show ?thesis by simp
next
  case (repr_Interior items nodes)
  let ?h1 = "h @ [ListObj []]"
  have "take (length h) ?h1 = h" by simp
  with assms(1) have r1: "repr ?h1 b m" by (rule repr_extend)
  have d1: "deref ?h1 (length h) = Some (ListObj [])" by (simp add: deref_def)
  from r1 d1 assms(2)
  have a: "append_values_h fuel ?h1 b (length h) sel
    = Some (?h1[length h := ListObj (append_values m [] sel)])"
    by (rule append_values_h_refines)
  have d2: "deref (?h1[length h := ListObj (append_values m [] sel)]) (length h)
    = Some (ListObj (append_values m [] sel))"
    using d1 by (rule deref_update_same)
  have "values_h fuel h b sel
    = Some (append_values m [] sel, ?h1[length h := ListObj (append_values m [] sel)])"
    using repr_Interior(2) a d2 by (simp add: Let_def)
  then show ?thesis by (simp add: values_of_append_values)
qed

lemma get_matching_rows_h_refines:
  assumes "repr h r t" and "height t \<le> fuel"
  shows "\<exists>h'. get_matching_rows_h fuel h r p = Some (fst (get_matching_rows t p), h')"
  using assms(1)
proof (cases rule: repr.cases)
  case (repr_Leaf x)
  then show ?thesis by (simp add: get_matching_rows_h_def)
next
  case (repr_Interior items nodes)
  show ?thesis
  proof (cases "signature_to_elements p")
    case (Inl e)
    with repr_Interior show ?thesis by (simp add: get_matching_rows_h_def)
  next
    case (Inr elements)
    let ?w = "if last elements = ''*'' \<or> last elements = ''**'' then butlast elements else elements"
    let ?sel = "if last elements = ''*''
                then (\<lambda>x. \<not> startswith x ''package:'') else (\<lambda>x. True)"
    have g: "get_matching_rows_h fuel h r p =
      (case walk_h h r ?w of
         None \<Rightarrow> None
       | Some (Inl e) \<Rightarrow> Some (Inl e, h)
       | Some (Inr None) \<Rightarrow> Some (Inr [], h)
       | Some (Inr (Some node)) \<Rightarrow>
           (case values_h fuel h node ?sel of
              None \<Rightarrow> None
            | Some (vs, h') \<Rightarrow> Some (Inr (concat vs), h')))"
      using repr_Interior(2) Inr by (simp add: get_matching_rows_h_def Let_def del: values_h.simps)
    have f: "fst (get_matching_rows t p) = rows t ?w ?sel"
      unfolding repr_Interior(1) by (rule gmr_rows[OF Inr])
    show ?thesis
    proof (cases "walk t ?w")
      case (Inl e)
      from walk_h_refines(1)[OF assms(1) Inl] Inl show ?thesis
        unfolding g f rows_def by simp
    next
      case (Inr reached)
      show ?thesis
      proof (cases reached)
        case None
        from walk_h_refines(2)[OF assms(1) Inr[unfolded None]] Inr None show ?thesis
          unfolding g f rows_def by simp
      next
        case (Some m)
        from walk_h_refines(3)[OF assms(1) Inr[unfolded Some]] obtain b where
          w: "walk_h h r ?w = Some (Inr (Some b))" and rb: "repr h b m" by blast
        from Inr Some have "height m \<le> height t" by (intro walk_height) simp
        with assms(2) have "height m \<le> fuel" by simp
        with rb obtain h' where "values_h fuel h b ?sel = Some (values_of m ?sel, h')"
          using values_h_refines by blast
        with w Inr Some show ?thesis
          unfolding g f rows_def by (simp del: values_h.simps)
      qed
    qed
  qed
qed

lemma eval_repr_Foo:
  "repr [LeafObj (7::nat), InteriorObj [(''member:m()V'', 0)],
         InteriorObj [(''class:Foo'', 1)], InteriorObj [(''package:pkg'', 2)]] 3
     (InteriorNode [(''package:pkg'', InteriorNode [(''class:Foo'',
        InteriorNode [(''member:m()V'', Leaf 7)])])])"
proof -
  let ?h = "[LeafObj (7::nat), InteriorObj [(''member:m()V'', 0)],
         InteriorObj [(''class:Foo'', 1)], InteriorObj [(''package:pkg'', 2)]]"
  have 0: "repr ?h 0 (Leaf 7)"
    by (rule repr_Leaf) (simp add: deref_def)
  have 1: "repr ?h 1 (InteriorNode [(''member:m()V'', Leaf 7)])"
    by (rule repr_Interior[where items = "[(''member:m()V'', 0)]"]) (use 0 in \<open>simp_all add: deref_def\<close>)
  have 2: "repr ?h 2 (InteriorNode [(''class:Foo'', InteriorNode [(''member:m()V'', Leaf 7)])])"
    by (rule repr_Interior[where items = "[(''class:Foo'', 1)]"]) (use 1 in \<open>simp_all add: deref_def\<close>)
  show ?thesis
    by (rule repr_Interior[where items = "[(''package:pkg'', 2)]"]) (use 2 in \<open>simp_all add: deref_def\<close>)
qed

lemma eval_gmr_h_Foo:
  "get_matching_rows_h 4 [LeafObj (7::nat), InteriorObj [(''member:m()V'', 0)],
         InteriorObj [(''class:Foo'', 1)], InteriorObj [(''package:pkg'', 2)]] 3 ''Lpkg/*''
   = Some (Inr [7], [LeafObj 7, InteriorObj [(''member:m()V'', 0)],
         InteriorObj [(''class:Foo'', 1)], InteriorObj [(''package:pkg'', 2)], ListObj [[7]]])"
  by (simp add: get_matching_rows_h_def deref_def eval_els_pkg_star1 Let_def startswith_def
      eval_nat_numeral)

subsection \<open>Entries, and signatures built from their parts\<close>

lemma entries_values: "map snd (entries n) = subtree_values n"
proof (induction n rule: entries.induct)
  case (1 x)
  show ?case by (simp add: subtree_values_Leaf)
next
  case (2 nodes)
  have "map snd (entries (InteriorNode nodes))
    = concat (map (\<lambda>item. map snd (entries (snd item))) nodes)"
    by (simp add: map_concat comp_def)
  also have "\<dots> = concat (map (\<lambda>item. subtree_values (snd item)) nodes)"
    using "2.IH" by (simp cong: map_cong)
  finally show ?case by (simp add: subtree_values_Interior)
qed

lemma concat_unique_key:
  "distinct (map fst nodes) \<Longrightarrow>
     concat (map (\<lambda>item. if fst item = p then g (snd item) else []) nodes)
       = (case map_of nodes p of Some c \<Rightarrow> g c | None \<Rightarrow> [])"
proof (induction nodes)
  case Nil
  show ?case by simp
next
  case (Cons a nodes)
  show ?case
  proof (cases "fst a = p")
    case True
    with Cons.prems have "p \<notin> fst ` set nodes" by auto
    then have "concat (map (\<lambda>item. if fst item = p then g (snd item) else []) nodes) = []"
      by (induction nodes) auto
    with True show ?thesis by (cases a) simp
  next
    case False
    with Cons show ?thesis by (cases a) simp
  qed
qed

lemma filter_entries_Cons:
  "filter (\<lambda>e. prefix (p # ps) (fst e)) (entries (InteriorNode nodes)) =
     concat (map (\<lambda>item. if fst item = p
        then map (\<lambda>e. (p # fst e, snd e)) (filter (\<lambda>e. prefix ps (fst e)) (entries (snd item)))
        else []) nodes)"
proof (induction nodes)
  case Nil
  show ?case by simp
next
  case (Cons a nodes)
  have "filter (\<lambda>e. prefix (p # ps) (fst e)) (map (\<lambda>e. (fst a # fst e, snd e)) (entries (snd a)))
    = (if fst a = p
       then map (\<lambda>e. (p # fst e, snd e)) (filter (\<lambda>e. prefix ps (fst e)) (entries (snd a)))
       else [])"
    by (auto simp: filter_map comp_def)
  with Cons show ?case by simp
qed

lemma rows_entries:
  "rows n ps (\<lambda>x. True) = Inr rs \<Longrightarrow> distinct_keys n
     \<Longrightarrow> rs = map snd (filter (\<lambda>e. prefix ps (fst e)) (entries n))"
proof (induction ps arbitrary: n rs)
  case Nil
  then have "rs = subtree_values n" by (simp add: rows_Nil subtree_values_def)
  then show ?case by (simp add: entries_values)
next
  case (Cons p ps)
  show ?case
  proof (cases n)
    case (Leaf x)
    with Cons.prems show ?thesis by (simp add: rows_Leaf_Cons)
  next
    case (InteriorNode nodes)
    from Cons.prems(2) have d: "distinct (map fst nodes)" unfolding InteriorNode by simp
    let ?g = "\<lambda>c. map (\<lambda>e. (p # fst e, snd e)) (filter (\<lambda>e. prefix ps (fst e)) (entries c))"
    have f: "filter (\<lambda>e. prefix (p # ps) (fst e)) (entries n)
      = (case map_of nodes p of Some c \<Rightarrow> ?g c | None \<Rightarrow> [])"
      unfolding InteriorNode filter_entries_Cons using d by (rule concat_unique_key)
    show ?thesis
    proof (cases "map_of nodes p")
      case None
      with Cons.prems(1) have "rs = []" unfolding InteriorNode by (simp add: rows_Cons)
      with None f show ?thesis by simp
    next
      case (Some c)
      with Cons.prems(1) have r: "rows c ps (\<lambda>x. True) = Inr rs"
        unfolding InteriorNode by (simp add: rows_Cons)
      from Some have "(p, c) \<in> set nodes" by (rule map_of_SomeD)
      with Cons.prems(2) have "distinct_keys c" unfolding InteriorNode by (auto simp: list_all_iff)
      with r have "rs = map snd (filter (\<lambda>e. prefix ps (fst e)) (entries c))" by (rule Cons.IH)
      with Some f show ?thesis by (simp add: comp_def)
    qed
  qed
qed

lemma entries_empty: "entries (InteriorNode []) = []"
  by simp

lemma mset_entries_update:
  assumes "mset (entries c') = add_mset (path, v) (mset (entries c))"
    and "map_of nodes e = Some c \<or> (map_of nodes e = None \<and> entries c = [])"
  shows "mset (entries (InteriorNode (AList.update e c' nodes)))
    = add_mset (e # path, v) (mset (entries (InteriorNode nodes)))"
proof -
  have m: "mset (map (\<lambda>x. (e # fst x, snd x)) (entries c'))
    = add_mset (e # path, v) (mset (map (\<lambda>x. (e # fst x, snd x)) (entries c)))"
    unfolding mset_map assms(1) by simp
  from assms(2) show ?thesis
  proof
    assume mo: "map_of nodes e = Some c"
    from update_present[OF mo, of c'] obtain pre post where
      n: "nodes = pre @ (e, c) # post" and u: "AList.update e c' nodes = pre @ (e, c') # post"
      by blast
    show ?thesis unfolding u entries.simps unfolding n using m by simp
  next
    assume a: "map_of nodes e = None \<and> entries c = []"
    then have u: "AList.update e c' nodes = nodes @ [(e, c')]" by (simp add: update_absent)
    from a m show ?thesis unfolding u by simp
  qed
qed

lemma add_walk_entries:
  "add_walk n es l v = (Inr (), n')
     \<Longrightarrow> mset (entries n') = add_mset (es @ [l], v) (mset (entries n))"
proof (induction es arbitrary: n n')
  case Nil
  then obtain nodes where n: "n = InteriorNode nodes" and m: "map_of nodes l = None"
    and n': "n' = InteriorNode (AList.update l (Leaf v) nodes)"
    unfolding add_walk_Nil_Inr by blast
  have "mset (entries (Leaf v)) = add_mset ([], v) (mset (entries (InteriorNode [] :: 'a node)))"
    by simp
  moreover have "map_of nodes l = Some (InteriorNode [])
      \<or> (map_of nodes l = None \<and> entries (InteriorNode [] :: 'a node) = [])"
    using m by simp
  ultimately have "mset (entries (InteriorNode (AList.update l (Leaf v) nodes)))
    = add_mset (l # [], v) (mset (entries (InteriorNode nodes)))"
    by (rule mset_entries_update)
  then show ?case unfolding n n' by simp
next
  case (Cons a es)
  show ?case
  proof (cases n)
    case (Leaf x)
    with Cons.prems show ?thesis by (simp add: add_walk_Leaf)
  next
    case (InteriorNode nodes)
    let ?c = "case map_of nodes a of Some child \<Rightarrow> child | None \<Rightarrow> InteriorNode []"
    let ?c' = "snd (add_walk ?c es l v)"
    from Cons.prems have f: "fst (add_walk ?c es l v) = Inr ()"
      and n': "n' = InteriorNode (AList.update a ?c' nodes)"
      unfolding InteriorNode add_walk_Cons by simp_all
    from f have "add_walk ?c es l v = (Inr (), ?c')" by (metis prod.collapse)
    then have "mset (entries ?c') = add_mset (es @ [l], v) (mset (entries ?c))"
      by (rule Cons.IH)
    moreover have "map_of nodes a = Some ?c \<or> (map_of nodes a = None \<and> entries ?c = [])"
      by (cases "map_of nodes a") simp_all
    ultimately have "mset (entries (InteriorNode (AList.update a ?c' nodes)))
      = add_mset (a # (es @ [l]), v) (mset (entries (InteriorNode nodes)))"
      by (rule mset_entries_update)
    then show ?thesis unfolding InteriorNode n' by simp
  qed
qed

lemma split_join_char:
  "parts \<noteq> [] \<Longrightarrow> \<forall>x \<in> set parts. c \<notin> set x \<Longrightarrow> split [c] (join [c] parts) = parts"
proof (induction parts rule: rev_induct)
  case Nil
  then show ?case by simp
next
  case (snoc y xs)
  from snoc.prems(2) have y: "c \<notin> set y" and xs: "\<forall>x \<in> set xs. c \<notin> set x" by simp_all
  show ?case
  proof (cases "xs = []")
    case True
    from y have "\<not> sublist [c] y" by (auto simp: sublist_def)
    then have "split [c] y = [y]" by (rule split_no_sep)
    with True show ?thesis by simp
  next
    case False
    then have "join [c] (xs @ [y]) = join [c] xs @ [c] @ y" by (rule join_snoc)
    then have "split [c] (join [c] (xs @ [y])) = split [c] (join [c] xs @ c # y)" by simp
    also have "\<dots> = split [c] (join [c] xs) @ [y]" using y by (rule split_char_snoc)
    also have "split [c] (join [c] xs) = xs" using False xs by (rule snoc.IH)
    finally show ?thesis .
  qed
qed

lemma set_join: "set (join sep parts) \<subseteq> set sep \<union> \<Union> (set ` set parts)"
proof (induction sep parts rule: join.induct)
  case (1 sep)
  show ?case by simp
next
  case (2 sep x)
  show ?case by simp
next
  case (3 sep x y ys)
  then show ?case by auto
qed

lemma sep_in_join: "2 \<le> length parts \<Longrightarrow> c \<in> set (join [c] parts)"
proof (cases parts)
  case Nil
  assume "2 \<le> length parts"
  with Nil show ?thesis by simp
next
  case (Cons x xs)
  assume "2 \<le> length parts"
  with Cons obtain y ys where "xs = y # ys" by (cases xs) auto
  with Cons show ?thesis by simp
qed

lemma no_semicolon_first:
  "CHR '';'' \<notin> set x \<Longrightarrow> \<not> sublist '';->'' (x @ '';-'')"
proof (induction x)
  case Nil
  show ?case by (simp add: sublist_Cons_right)
next
  case (Cons a x)
  then have "\<not> sublist '';->'' (x @ '';-'')" by simp
  moreover from Cons.prems have "\<not> prefix '';->'' (a # x @ '';-'')" by auto
  ultimately show ?case by (simp add: sublist_Cons_right)
qed

lemma no_semicolon_none: "CHR '';'' \<notin> set x \<Longrightarrow> \<not> sublist '';->'' x"
proof
  assume a: "CHR '';'' \<notin> set x" and b: "sublist '';->'' x"
  from b have "set '';->'' \<subseteq> set x" by (rule set_mono_sublist)
  with a show False by simp
qed

lemma class_path_facts:
  assumes "\<forall>x \<in> set (pkgs @ cs). CHR ''/'' \<notin> set x \<and> CHR '';'' \<notin> set x"
    and "\<forall>x \<in> set cs. CHR ''$'' \<notin> set x" and "cs \<noteq> []"
  shows "split ''/'' (join ''/'' (pkgs @ [join ''$'' cs])) = pkgs @ [join ''$'' cs]"
    and "split ''$'' (join ''$'' cs) = cs"
    and "CHR '';'' \<notin> set (join ''/'' (pkgs @ [join ''$'' cs]))"
proof -
  have j: "set (join ''$'' cs) \<subseteq> set ''$'' \<union> \<Union> (set ` set cs)" by (rule set_join)
  from j assms(1) have s: "CHR ''/'' \<notin> set (join ''$'' cs)" and c: "CHR '';'' \<notin> set (join ''$'' cs)"
    by auto
  show "split ''/'' (join ''/'' (pkgs @ [join ''$'' cs])) = pkgs @ [join ''$'' cs]"
    using s assms(1) by (intro split_join_char) auto
  show "split ''$'' (join ''$'' cs) = cs"
    using assms(3,2) by (rule split_join_char)
  have "set (join ''/'' (pkgs @ [join ''$'' cs])) \<subseteq> set ''/'' \<union> \<Union> (set ` set (pkgs @ [join ''$'' cs]))"
    by (rule set_join)
  with c assms(1) show "CHR '';'' \<notin> set (join ''/'' (pkgs @ [join ''$'' cs]))" by auto
qed

lemma elements_member_signature:
  assumes "\<forall>x \<in> set (pkgs @ cs). CHR ''/'' \<notin> set x \<and> CHR '';'' \<notin> set x"
    and "\<forall>x \<in> set cs. CHR ''$'' \<notin> set x" and "cs \<noteq> []"
    and "join ''$'' cs \<noteq> ''*''" and "join ''$'' cs \<noteq> ''**''"
    and "\<not> sublist '';->'' m"
  shows "signature_to_elements (member_signature pkgs cs m) =
     Inr (map (\<lambda>x. ''package:'' @ x) pkgs @ map (\<lambda>x. ''class:'' @ x) cs @ [''member:'' @ m])"
proof -
  let ?cls = "join ''/'' (pkgs @ [join ''$'' cs])"
  note f = class_path_facts[OF assms(1,2,3)]
  have t: "removeprefix ''L'' (member_signature pkgs cs m) = ?cls @ '';->'' @ m"
    by (simp add: member_signature_def removeprefix_def)
  have n: "\<not> sublist '';->'' (?cls @ '';-'')" using f(3) by (rule no_semicolon_first)
  show ?thesis
    unfolding elements_at_first_sep[OF t n] f(1) using assms(4,5)
    by (simp add: f(2) split_no_sep[OF assms(6)])
qed

lemma elements_class_pattern:
  assumes "\<forall>x \<in> set (pkgs @ cs). CHR ''/'' \<notin> set x \<and> CHR '';'' \<notin> set x"
    and "\<forall>x \<in> set cs. CHR ''$'' \<notin> set x" and "cs \<noteq> []"
    and "join ''$'' cs \<noteq> ''*''" and "join ''$'' cs \<noteq> ''**''"
  shows "signature_to_elements (class_pattern pkgs cs) =
     Inr (map (\<lambda>x. ''package:'' @ x) pkgs @ map (\<lambda>x. ''class:'' @ x) cs)"
proof -
  let ?cls = "join ''/'' (pkgs @ [join ''$'' cs])"
  note f = class_path_facts[OF assms(1,2,3)]
  have t: "removeprefix ''L'' (class_pattern pkgs cs) = ?cls"
    by (simp add: class_pattern_def removeprefix_def)
  have n: "\<not> sublist '';->'' (removeprefix ''L'' (class_pattern pkgs cs))"
    unfolding t using f(3) by (rule no_semicolon_none)
  show ?thesis
    unfolding elements_no_sep[OF n] t Let_def f(1) using assms(4,5) by (simp add: f(2))
qed

lemma add_then_prefix_entries:
  assumes "add t s v = (Inr (), t')"
    and "signature_to_elements s = Inr (ps @ qs)"
    and "signature_to_elements p = Inr ps"
    and "last ps \<noteq> ''*''" and "last ps \<noteq> ''**''"
    and "distinct_keys t"
  shows "mset (entries t') = add_mset (ps @ qs, v) (mset (entries t))"
    and "fst (get_matching_rows t' p) =
      Inr (map snd (filter (\<lambda>e. prefix ps (fst e)) (entries t')))"
    and "v \<in> set (map snd (filter (\<lambda>e. prefix ps (fst e)) (entries t')))"
proof -
  from assms(1) obtain nodes elements where t: "t = InteriorNode nodes"
    and els: "signature_to_elements s = Inr elements"
    and aw: "add_walk (InteriorNode nodes) (butlast elements) (last elements) v = (Inr (), t')"
    by (rule add_Inr_D)
  from els assms(2) have e: "elements = ps @ qs" by simp
  from add_walk_kind[OF aw] obtain nodes' where t': "t' = InteriorNode nodes'" ..
  have ne: "elements \<noteq> []" using els by (rule signature_to_elements_not_Nil)
  have "mset (entries t') = add_mset (butlast elements @ [last elements], v) (mset (entries t))"
    unfolding t using aw by (rule add_walk_entries)
  then show m: "mset (entries t') = add_mset (ps @ qs, v) (mset (entries t))"
    unfolding append_butlast_last_id[OF ne] unfolding e .
  have "walk t' (butlast elements @ [last elements]) = Inr (Some (Leaf v))"
    using aw by (rule add_walk_then_walk)
  then have "walk t' elements = Inr (Some (Leaf v))"
    unfolding append_butlast_last_id[OF ne] .
  then have "walk t' (ps @ qs) = Inr (Some (Leaf v))" unfolding e .
  then have "\<exists>rs. rows t' ps (\<lambda>x. True) = Inr rs \<and> v \<in> set rs" by (rule prefix_rows)
  then obtain rs where rs: "rows t' ps (\<lambda>x. True) = Inr rs" by auto
  from assms(6) have "distinct_keys (snd (add t s v))" by (rule add_distinct_keys)
  with assms(1) have d: "distinct_keys t'" by simp
  from rs d have "rs = map snd (filter (\<lambda>e. prefix ps (fst e)) (entries t'))"
    by (rule rows_entries)
  moreover have "fst (get_matching_rows t' p) = rows t' ps (\<lambda>x. True)"
    unfolding t' gmr_rows[OF assms(3)] using assms(4,5) by simp
  ultimately show "fst (get_matching_rows t' p) =
      Inr (map snd (filter (\<lambda>e. prefix ps (fst e)) (entries t')))"
    using rs by simp
  from m have "(ps @ qs, v) \<in># mset (entries t')" by simp
  then have "(ps @ qs, v) \<in> set (entries t')" by simp
  then have "(ps @ qs, v) \<in> set (filter (\<lambda>e. prefix ps (fst e)) (entries t'))" by simp
  then show "v \<in> set (map snd (filter (\<lambda>e. prefix ps (fst e)) (entries t')))" by force
qed

lemma join_not_wildcard:
  assumes "outer \<noteq> []" and "join ''$'' outer \<noteq> ''*''" and "join ''$'' outer \<noteq> ''**''"
  shows "join ''$'' (outer @ inner) \<noteq> ''*'' \<and> join ''$'' (outer @ inner) \<noteq> ''**''"
proof (cases "inner = []")
  case True
  with assms show ?thesis by simp
next
  case False
  with assms(1) have "2 \<le> length (outer @ inner)"
    by (cases outer; cases inner) simp_all
  then have "CHR ''$'' \<in> set (join ''$'' (outer @ inner))" by (rule sep_in_join)
  then show ?thesis by auto
qed

lemma nested_general:
  assumes n1: "\<forall>x \<in> set (pkgs @ outer @ inner). CHR ''/'' \<notin> set x \<and> CHR '';'' \<notin> set x"
    and n2: "\<forall>x \<in> set (outer @ inner). CHR ''$'' \<notin> set x"
    and o: "outer \<noteq> []" and w1: "join ''$'' outer \<noteq> ''*''" and w2: "join ''$'' outer \<noteq> ''**''"
    and m: "\<not> sublist '';->'' m"
    and a: "add t (member_signature pkgs (outer @ inner) m) v = (Inr (), t')"
    and d: "distinct_keys t"
  shows "signature_to_elements (member_signature pkgs (outer @ inner) m) =
       Inr (map (\<lambda>x. ''package:'' @ x) pkgs @ map (\<lambda>x. ''class:'' @ x) (outer @ inner)
            @ [''member:'' @ m])
     \<and> signature_to_elements (class_pattern pkgs outer) =
       Inr (map (\<lambda>x. ''package:'' @ x) pkgs @ map (\<lambda>x. ''class:'' @ x) outer)
     \<and> mset (entries t') =
       add_mset (map (\<lambda>x. ''package:'' @ x) pkgs @ map (\<lambda>x. ''class:'' @ x) (outer @ inner)
                 @ [''member:'' @ m], v) (mset (entries t))
     \<and> fst (get_matching_rows t' (class_pattern pkgs outer)) =
       Inr (map snd (filter (\<lambda>e. prefix (map (\<lambda>x. ''package:'' @ x) pkgs
                                          @ map (\<lambda>x. ''class:'' @ x) outer) (fst e))
                      (entries t')))
     \<and> v \<in> set (map snd (filter (\<lambda>e. prefix (map (\<lambda>x. ''package:'' @ x) pkgs
                                          @ map (\<lambda>x. ''class:'' @ x) outer) (fst e))
                      (entries t')))"
proof -
  let ?P = "map (\<lambda>x. ''package:'' @ x) pkgs"
  let ?ps = "?P @ map (\<lambda>x. ''class:'' @ x) outer"
  let ?qs = "map (\<lambda>x. ''class:'' @ x) inner @ [''member:'' @ m]"
  from join_not_wildcard[OF o w1 w2, of inner]
  have w: "join ''$'' (outer @ inner) \<noteq> ''*''" "join ''$'' (outer @ inner) \<noteq> ''**''" by simp_all
  from n1 have n1': "\<forall>x \<in> set (pkgs @ (outer @ inner)). CHR ''/'' \<notin> set x \<and> CHR '';'' \<notin> set x"
    by simp
  from o have o': "outer @ inner \<noteq> []" by simp
  have e: "signature_to_elements (member_signature pkgs (outer @ inner) m) =
       Inr (?P @ map (\<lambda>x. ''class:'' @ x) (outer @ inner) @ [''member:'' @ m])"
    using n1' n2 o' w m by (rule elements_member_signature)
  then have e': "signature_to_elements (member_signature pkgs (outer @ inner) m) = Inr (?ps @ ?qs)"
    by simp
  from n1 have "\<forall>x \<in> set (pkgs @ outer). CHR ''/'' \<notin> set x \<and> CHR '';'' \<notin> set x" by auto
  moreover from n2 have "\<forall>x \<in> set outer. CHR ''$'' \<notin> set x" by auto
  ultimately have p: "signature_to_elements (class_pattern pkgs outer) = Inr ?ps"
    using o w1 w2 by (rule elements_class_pattern)
  from o have l: "last ?ps \<noteq> ''*''" "last ?ps \<noteq> ''**''" by (simp_all add: last_map)
  note r = add_then_prefix_entries[OF a e' p l d]
  from r(1) have "mset (entries t') =
       add_mset (?P @ map (\<lambda>x. ''class:'' @ x) (outer @ inner) @ [''member:'' @ m], v)
         (mset (entries t))" by simp
  with e p r(2,3) show ?thesis by blast
qed

lemma eval_member_signature_Inner:
  "member_signature [''pkg''] ([''Outer''] @ [''Inner'']) ''m()V'' = ''Lpkg/Outer$Inner;->m()V''"
  "member_signature [''pkg''] ([''Outer'', ''Inner''] @ []) ''m()V'' = ''Lpkg/Outer$Inner;->m()V''"
  "class_pattern [''pkg''] [''Outer''] = ''Lpkg/Outer''"
  "class_pattern [''pkg''] [''Outer'', ''Inner''] = ''Lpkg/Outer$Inner''"
  by (simp_all add: member_signature_def class_pattern_def)

lemma eval_add_Inner_Foo:
  "add (InteriorNode [(''package:pkg'', InteriorNode [(''class:Foo'',
        InteriorNode [(''member:m()V'', Leaf (1::nat))])])]) ''Lpkg/Outer$Inner;->m()V'' 2 =
     (Inr (), InteriorNode [(''package:pkg'', InteriorNode
        [(''class:Foo'', InteriorNode [(''member:m()V'', Leaf 1)]),
         (''class:Outer'', InteriorNode [(''class:Inner'', InteriorNode [(''member:m()V'', Leaf 2)])])])])"
  by (simp add: eval_els_Inner add_walk_Cons startswith_def)

lemma elements_split_at_separators:
  assumes "removeprefix ''L'' s = cls @ '';->'' @ rest"
    and "\<not> sublist '';->'' (cls @ '';-'')"
    and "last (split ''/'' cls) \<noteq> ''*''" and "last (split ''/'' cls) \<noteq> ''**''"
  shows "signature_to_elements s =
       Inr (map (\<lambda>x. ''package:'' @ x) (butlast (split ''/'' cls))
            @ map (\<lambda>x. ''class:'' @ x) (split ''$'' (last (split ''/'' cls)))
            @ map (\<lambda>x. ''member:'' @ x) (split '';->'' rest))
     \<and> (\<not> sublist '';->'' rest \<longrightarrow>
          signature_to_elements s =
            Inr (map (\<lambda>x. ''package:'' @ x) (butlast (split ''/'' cls))
                 @ map (\<lambda>x. ''class:'' @ x) (split ''$'' (last (split ''/'' cls)))
                 @ [''member:'' @ rest]))"
proof -
  have 1: "signature_to_elements s =
       Inr (map (\<lambda>x. ''package:'' @ x) (butlast (split ''/'' cls))
            @ map (\<lambda>x. ''class:'' @ x) (split ''$'' (last (split ''/'' cls)))
            @ map (\<lambda>x. ''member:'' @ x) (split '';->'' rest))"
    unfolding elements_at_first_sep[OF assms(1,2)] using assms(3,4) by simp
  have "signature_to_elements s =
            Inr (map (\<lambda>x. ''package:'' @ x) (butlast (split ''/'' cls))
                 @ map (\<lambda>x. ''class:'' @ x) (split ''$'' (last (split ''/'' cls)))
                 @ [''member:'' @ rest])"
    if "\<not> sublist '';->'' rest"
    unfolding 1 split_no_sep[OF that] by simp
  with 1 show ?thesis by blast
qed

section \<open>The claims\<close>

text \<open>
  C1. After \<open>add(s, v)\<close> has returned normally on a trie, \<open>get_matching_rows(s)\<close> on
  that trie yields exactly the one value \<open>v\<close>. This holds for every string \<open>s\<close>, in
  particular for those of the signature grammar.
\<close>

theorem insert_then_exact_match:
  assumes "add t s v = (Inr (), t')"
  shows "fst (get_matching_rows t' s) = Inr [v]"
  using assms by (rule add_then_rows)

theorem insert_then_exact_match_witness:
  "add (signature_trie :: nat node) ''Lpkg/Foo;->m()V'' 7 =
     (Inr (), InteriorNode [(''package:pkg'', InteriorNode [(''class:Foo'',
        InteriorNode [(''member:m()V'', Leaf 7)])])])
   \<and> fst (get_matching_rows (InteriorNode [(''package:pkg'', InteriorNode [(''class:Foo'',
        InteriorNode [(''member:m()V'', Leaf (7::nat))])])]) ''Lpkg/Foo;->m()V'') = Inr [7]"
  using eval_add_Foo[of "7::nat"] insert_then_exact_match[OF eval_add_Foo[of "7::nat"]]
  by (rule conjI)

text \<open>
  C2. When the pattern decomposes into elements that end in \<open>*\<close> and the elements before
  it lead to an interior node, \<open>get_matching_rows\<close> yields the values of the whole
  subtrees of those children of that node whose key is not a \<open>package:\<close> key, in the
  order of the dict. In terms of paths, on a trie whose dicts hold each key once: a value
  is yielded exactly when it sits in a leaf reached from that node by a path whose first
  key is not a \<open>package:\<close> key. So after \<open>add("Lpkg/Foo;->m()V", v1)\<close> and
  \<open>add("Lpkg/sub/Bar;->n()V", v2)\<close> on the empty trie, \<open>"Lpkg/*"\<close> yields \<open>v1\<close> only
  and \<open>"Lpkg/**"\<close> yields \<open>v1\<close> and \<open>v2\<close>.
\<close>

theorem single_level_wildcard:
  "(signature_to_elements p = Inr (pre @ [''*''])
      \<and> walk (InteriorNode nodes :: 'v node) pre = Inr (Some (InteriorNode kids)) \<longrightarrow>
        fst (get_matching_rows (InteriorNode nodes) p) =
          Inr (concat (map (\<lambda>item. subtree_values (snd item))
                 (filter (\<lambda>item. \<not> startswith (fst item) ''package:'') kids)))
        \<and> (distinct_keys (InteriorNode nodes) \<longrightarrow>
             set (concat (map (\<lambda>item. subtree_values (snd item))
                    (filter (\<lambda>item. \<not> startswith (fst item) ''package:'') kids)))
             = {v. \<exists>k ks. \<not> startswith k ''package:''
                  \<and> walk (InteriorNode nodes) (pre @ k # ks) = Inr (Some (Leaf v))}))
   \<and> add signature_trie ''Lpkg/Foo;->m()V'' (v1 :: 'v) =
       (Inr (), InteriorNode [(''package:pkg'', InteriorNode [(''class:Foo'',
          InteriorNode [(''member:m()V'', Leaf v1)])])])
   \<and> add (InteriorNode [(''package:pkg'', InteriorNode [(''class:Foo'',
          InteriorNode [(''member:m()V'', Leaf v1)])])]) ''Lpkg/sub/Bar;->n()V'' v2 =
       (Inr (), InteriorNode [(''package:pkg'', InteriorNode
          [(''class:Foo'', InteriorNode [(''member:m()V'', Leaf v1)]),
           (''package:sub'', InteriorNode [(''class:Bar'', InteriorNode [(''member:n()V'', Leaf v2)])])])])
   \<and> fst (get_matching_rows (InteriorNode [(''package:pkg'', InteriorNode
          [(''class:Foo'', InteriorNode [(''member:m()V'', Leaf v1)]),
           (''package:sub'', InteriorNode [(''class:Bar'', InteriorNode [(''member:n()V'', Leaf v2)])])])])
        ''Lpkg/*'') = Inr [v1]
   \<and> fst (get_matching_rows (InteriorNode [(''package:pkg'', InteriorNode
          [(''class:Foo'', InteriorNode [(''member:m()V'', Leaf v1)]),
           (''package:sub'', InteriorNode [(''class:Bar'', InteriorNode [(''member:n()V'', Leaf v2)])])])])
        ''Lpkg/**'') = Inr [v1, v2]"
  using gmr_single_level[of p pre nodes kids]
    single_level_paths[of nodes pre kids "\<lambda>x. \<not> startswith x ''package:''"]
    eval_add_Foo[of v1] eval_add_Bar[of v1 v2] eval_gmr_pkg_star1[of v1 v2]
    eval_gmr_pkg_star2[of v1 v2]
  by blast

theorem single_level_wildcard_witness:
  "signature_to_elements ''Lpkg/*'' = Inr ([''package:pkg''] @ [''*''])
   \<and> walk (InteriorNode [(''package:pkg'', InteriorNode
          [(''class:Foo'', InteriorNode [(''member:m()V'', Leaf (1::nat))]),
           (''package:sub'', InteriorNode [(''class:Bar'', InteriorNode [(''member:n()V'', Leaf 2)])])])])
        [''package:pkg'']
      = Inr (Some (InteriorNode
          [(''class:Foo'', InteriorNode [(''member:m()V'', Leaf 1)]),
           (''package:sub'', InteriorNode [(''class:Bar'', InteriorNode [(''member:n()V'', Leaf 2)])])]))
   \<and> distinct_keys (InteriorNode [(''package:pkg'', InteriorNode
          [(''class:Foo'', InteriorNode [(''member:m()V'', Leaf (1::nat))]),
           (''package:sub'', InteriorNode [(''class:Bar'', InteriorNode [(''member:n()V'', Leaf 2)])])])])
   \<and> fst (get_matching_rows (InteriorNode [(''package:pkg'', InteriorNode
          [(''class:Foo'', InteriorNode [(''member:m()V'', Leaf (1::nat))]),
           (''package:sub'', InteriorNode [(''class:Bar'', InteriorNode [(''member:n()V'', Leaf 2)])])])])
        ''Lpkg/*'') = Inr [1]
   \<and> {v. \<exists>k ks. \<not> startswith k ''package:''
          \<and> walk (InteriorNode [(''package:pkg'', InteriorNode
          [(''class:Foo'', InteriorNode [(''member:m()V'', Leaf (1::nat))]),
           (''package:sub'', InteriorNode [(''class:Bar'', InteriorNode [(''member:n()V'', Leaf 2)])])])])
             ([''package:pkg''] @ k # ks) = Inr (Some (Leaf v))} = {1}"
proof -
  let ?kids = "[(''class:Foo'', InteriorNode [(''member:m()V'', Leaf (1::nat))]),
           (''package:sub'', InteriorNode [(''class:Bar'', InteriorNode [(''member:n()V'', Leaf 2)])])]"
  let ?nodes = "[(''package:pkg'', InteriorNode ?kids)]"
  have e: "signature_to_elements ''Lpkg/*'' = Inr ([''package:pkg''] @ [''*''])"
    by (simp add: eval_els_pkg_star1)
  have w: "walk (InteriorNode ?nodes) [''package:pkg''] = Inr (Some (InteriorNode ?kids))"
    by simp
  have d: "distinct_keys (InteriorNode ?nodes)" by simp
  have c: "concat (map (\<lambda>item. subtree_values (snd item))
             (filter (\<lambda>item. \<not> startswith (fst item) ''package:'') ?kids)) = [1]"
    by (simp add: subtree_values_Interior subtree_values_Leaf startswith_def)
  from single_level_wildcard[of "''Lpkg/*''" "[''package:pkg'']" ?nodes ?kids] e w d
  have "fst (get_matching_rows (InteriorNode ?nodes) ''Lpkg/*'') =
          Inr (concat (map (\<lambda>item. subtree_values (snd item))
                 (filter (\<lambda>item. \<not> startswith (fst item) ''package:'') ?kids)))"
    and "set (concat (map (\<lambda>item. subtree_values (snd item))
                    (filter (\<lambda>item. \<not> startswith (fst item) ''package:'') ?kids)))
             = {v. \<exists>k ks. \<not> startswith k ''package:''
                  \<and> walk (InteriorNode ?nodes) ([''package:pkg''] @ k # ks) = Inr (Some (Leaf v))}"
    by blast+
  then have "fst (get_matching_rows (InteriorNode ?nodes) ''Lpkg/*'') = Inr [1]"
    and "{v. \<exists>k ks. \<not> startswith k ''package:''
                  \<and> walk (InteriorNode ?nodes) ([''package:pkg''] @ k # ks) = Inr (Some (Leaf v))} = {1}"
    unfolding c by simp_all
  with e w d show ?thesis by blast
qed

text \<open>
  C3. The text is to be split once, at the first \<open>";->"\<close>: what stands before is the
  qualified class name, and all that follows, further \<open>";->"\<close> included, is the one
  member signature. The source says so itself: its comment names the two parts 0 and 1,
  its docstring lists "the member signature", its error message reads \<open>member[0]\<close>, and
  members are to be leaves. But \<open>text.split(";->")\<close> cuts at every occurrence and
  \<open>parts[1:]\<close> keeps every further piece. So \<open>"La;->b;->c"\<close> yields the two elements
  \<open>member:b\<close> and \<open>member:c\<close> instead of \<open>member:b;->c\<close>; \<open>add\<close> then makes \<open>member:b\<close>
  an interior node, and on a trie that holds \<open>"La;->b"\<close> it runs into that leaf and raises
  \<open>AttributeError\<close>.
\<close>

theorem split_once_failing_input:
  "signature_to_elements ''La;->b;->c'' = Inr [''class:a'', ''member:b'', ''member:c'']
   \<and> signature_to_elements ''La;->b;->c'' \<noteq> Inr [''class:a'', ''member:b;->c'']
   \<and> add signature_trie ''La;->b;->c'' v =
       (Inr (), InteriorNode [(''class:a'', InteriorNode [(''member:b'',
          InteriorNode [(''member:c'', Leaf v)])])])
   \<and> add (InteriorNode [(''class:a'', InteriorNode [(''member:b'', Leaf w)])]) ''La;->b;->c'' v =
       (Inl AttributeError, InteriorNode [(''class:a'', InteriorNode [(''member:b'', Leaf w)])])"
proof -
  have e: "signature_to_elements ''La;->b;->c'' = Inr [''class:a'', ''member:b'', ''member:c'']"
    by (simp add: signature_to_elements_def removeprefix_def Let_def)
  have 1: "add signature_trie ''La;->b;->c'' v =
       (Inr (), InteriorNode [(''class:a'', InteriorNode [(''member:b'',
          InteriorNode [(''member:c'', Leaf v)])])])"
    by (simp add: signature_trie_def e add_walk_Cons startswith_def)
  have 2: "add (InteriorNode [(''class:a'', InteriorNode [(''member:b'', Leaf w)])]) ''La;->b;->c'' v =
       (Inl AttributeError, InteriorNode [(''class:a'', InteriorNode [(''member:b'', Leaf w)])])"
    by (simp add: e add_walk_Cons startswith_def)
  from e 1 2 show ?thesis by simp
qed




text \<open>
  C5. When \<open>add(s, v1)\<close> has returned normally and \<open>s'\<close> decomposes into the same
  elements as \<open>s\<close>, the call \<open>add(s', v2)\<close> raises "Duplicate signature" and leaves
  the trie as it was, so \<open>get_matching_rows(s)\<close> still yields exactly \<open>v1\<close>.
\<close>

theorem duplicate_rejected:
  assumes "add t s v1 = (Inr (), t1)"
    and "signature_to_elements s' = signature_to_elements s"
  shows "add t1 s' v2 = (Inl DuplicateSignature, t1)
    \<and> fst (get_matching_rows (snd (add t1 s' v2)) s) = Inr [v1]"
proof -
  from assms(1) obtain nodes elements where t: "t = InteriorNode nodes"
    and els: "signature_to_elements s = Inr elements"
    and aw: "add_walk (InteriorNode nodes) (butlast elements) (last elements) v1 = (Inr (), t1)"
    by (rule add_Inr_D)
  from add_walk_kind[OF aw] obtain nodes1 where t1: "t1 = InteriorNode nodes1" ..
  have mem: "startswith (last elements) ''member:''" using aw by (rule add_walk_member)
  have w: "walk t1 (butlast elements @ [last elements]) = Inr (Some (Leaf v1))"
    using aw by (rule add_walk_then_walk)
  have "add_walk t1 (butlast elements) (last elements) v2 = (Inl DuplicateSignature, t1)"
    using w mem by (rule walk_then_add_walk_dup)
  then have dup: "add t1 s' v2 = (Inl DuplicateSignature, t1)"
    unfolding t1 by (simp add: assms(2) els)
  have "fst (get_matching_rows t1 s) = Inr [v1]"
    using assms(1) by (rule add_then_rows)
  with dup show ?thesis by simp
qed

theorem duplicate_rejected_witness:
  "add (signature_trie :: nat node) ''Lpkg/Foo;->m()V'' 7 =
     (Inr (), InteriorNode [(''package:pkg'', InteriorNode [(''class:Foo'',
        InteriorNode [(''member:m()V'', Leaf 7)])])])
   \<and> signature_to_elements ''pkg/Foo;->m()V'' = signature_to_elements ''Lpkg/Foo;->m()V''
   \<and> add (InteriorNode [(''package:pkg'', InteriorNode [(''class:Foo'',
        InteriorNode [(''member:m()V'', Leaf (7::nat))])])]) ''pkg/Foo;->m()V'' 9
     = (Inl DuplicateSignature, InteriorNode [(''package:pkg'', InteriorNode [(''class:Foo'',
        InteriorNode [(''member:m()V'', Leaf 7)])])])
   \<and> fst (get_matching_rows (snd (add (InteriorNode [(''package:pkg'', InteriorNode [(''class:Foo'',
        InteriorNode [(''member:m()V'', Leaf (7::nat))])])]) ''pkg/Foo;->m()V'' 9)) ''Lpkg/Foo;->m()V'')
     = Inr [7]"
  using eval_add_Foo[of "7::nat"] eval_els_Foo_bare
    duplicate_rejected[OF eval_add_Foo[of "7::nat"] eval_els_Foo_bare, of 9]
  by blast

text \<open>
  C6. Take a signature of the grammar: packages, then class names joined by \<open>$\<close>, then
  \<open>;->\<close> and a member. It decomposes into the \<open>package:\<close> elements, one \<open>class:\<close> element per
  class name from the outermost to the innermost, and the \<open>member:\<close> element, so that an
  inner class is a child of its outer class. When \<open>add\<close> has returned for it on a trie
  (whose dicts hold each key once), the trie holds the entries it held before and the new
  one, and the pattern that names the packages and any leading part of the class names
  yields exactly the values of the entries beneath those elements, the new value among
  them. For \<open>"Lpkg/Outer$Inner;->m()V"\<close> added to the empty trie, \<open>"Lpkg/Outer"\<close> and
  \<open>"Lpkg/Outer$Inner"\<close> both yield exactly \<open>v\<close>.
\<close>

theorem nested_classes:
  "((\<forall>x \<in> set (pkgs @ outer @ inner). CHR ''/'' \<notin> set x \<and> CHR '';'' \<notin> set x)
      \<and> (\<forall>x \<in> set (outer @ inner). CHR ''$'' \<notin> set x)
      \<and> outer \<noteq> [] \<and> join ''$'' outer \<noteq> ''*'' \<and> join ''$'' outer \<noteq> ''**''
      \<and> \<not> sublist '';->'' m
      \<and> add t (member_signature pkgs (outer @ inner) m) v = (Inr (), t')
      \<and> distinct_keys t
    \<longrightarrow>
      signature_to_elements (member_signature pkgs (outer @ inner) m) =
        Inr (map (\<lambda>x. ''package:'' @ x) pkgs @ map (\<lambda>x. ''class:'' @ x) (outer @ inner)
             @ [''member:'' @ m])
      \<and> signature_to_elements (class_pattern pkgs outer) =
        Inr (map (\<lambda>x. ''package:'' @ x) pkgs @ map (\<lambda>x. ''class:'' @ x) outer)
      \<and> mset (entries t') =
        add_mset (map (\<lambda>x. ''package:'' @ x) pkgs @ map (\<lambda>x. ''class:'' @ x) (outer @ inner)
                  @ [''member:'' @ m], v) (mset (entries t))
      \<and> fst (get_matching_rows t' (class_pattern pkgs outer)) =
        Inr (map snd (filter (\<lambda>e. prefix (map (\<lambda>x. ''package:'' @ x) pkgs
                                           @ map (\<lambda>x. ''class:'' @ x) outer) (fst e))
                       (entries t')))
      \<and> v \<in> set (map snd (filter (\<lambda>e. prefix (map (\<lambda>x. ''package:'' @ x) pkgs
                                           @ map (\<lambda>x. ''class:'' @ x) outer) (fst e))
                       (entries t'))))
   \<and> member_signature [''pkg''] [''Outer'', ''Inner''] ''m()V'' = ''Lpkg/Outer$Inner;->m()V''
   \<and> class_pattern [''pkg''] [''Outer''] = ''Lpkg/Outer''
   \<and> class_pattern [''pkg''] [''Outer'', ''Inner''] = ''Lpkg/Outer$Inner''
   \<and> signature_to_elements ''Lpkg/Outer$Inner;->m()V'' =
       Inr [''package:pkg'', ''class:Outer'', ''class:Inner'', ''member:m()V'']
   \<and> fst (get_matching_rows (snd (add signature_trie ''Lpkg/Outer$Inner;->m()V'' w))
        ''Lpkg/Outer'') = Inr [w]
   \<and> fst (get_matching_rows (snd (add signature_trie ''Lpkg/Outer$Inner;->m()V'' w))
        ''Lpkg/Outer$Inner'') = Inr [w]"
proof -
  have lit: "member_signature [''pkg''] [''Outer'', ''Inner''] ''m()V'' = ''Lpkg/Outer$Inner;->m()V''"
    "class_pattern [''pkg''] [''Outer''] = ''Lpkg/Outer''"
    "class_pattern [''pkg''] [''Outer'', ''Inner''] = ''Lpkg/Outer$Inner''"
    by (simp_all add: member_signature_def class_pattern_def)
  have ev: "fst (get_matching_rows (snd (add signature_trie ''Lpkg/Outer$Inner;->m()V'' w))
        ''Lpkg/Outer'') = Inr [w]"
    "fst (get_matching_rows (snd (add signature_trie ''Lpkg/Outer$Inner;->m()V'' w))
        ''Lpkg/Outer$Inner'') = Inr [w]"
    unfolding eval_add_Inner snd_conv by (rule eval_gmr_Outer, rule eval_gmr_Inner)
  from nested_general[of pkgs outer inner m t v t'] lit ev eval_els_Inner
  show ?thesis by blast
qed

theorem nested_classes_witness:
  "CHR ''/'' \<notin> set ''pkg'' \<and> CHR '';'' \<notin> set ''pkg''
   \<and> CHR ''/'' \<notin> set ''Outer'' \<and> CHR '';'' \<notin> set ''Outer'' \<and> CHR ''$'' \<notin> set ''Outer''
   \<and> CHR ''/'' \<notin> set ''Inner'' \<and> CHR '';'' \<notin> set ''Inner'' \<and> CHR ''$'' \<notin> set ''Inner''
   \<and> [''Outer''] \<noteq> [] \<and> join ''$'' [''Outer''] \<noteq> ''*'' \<and> join ''$'' [''Outer''] \<noteq> ''**''
   \<and> \<not> sublist '';->'' ''m()V''
   \<and> add (InteriorNode [(''package:pkg'', InteriorNode [(''class:Foo'',
        InteriorNode [(''member:m()V'', Leaf (1::nat))])])])
        (member_signature [''pkg''] ([''Outer''] @ [''Inner'']) ''m()V'') 2 =
     (Inr (), InteriorNode [(''package:pkg'', InteriorNode
        [(''class:Foo'', InteriorNode [(''member:m()V'', Leaf 1)]),
         (''class:Outer'', InteriorNode [(''class:Inner'', InteriorNode [(''member:m()V'', Leaf 2)])])])])
   \<and> distinct_keys (InteriorNode [(''package:pkg'', InteriorNode [(''class:Foo'',
        InteriorNode [(''member:m()V'', Leaf (1::nat))])])])
   \<and> fst (get_matching_rows (InteriorNode [(''package:pkg'', InteriorNode
        [(''class:Foo'', InteriorNode [(''member:m()V'', Leaf 1)]),
         (''class:Outer'', InteriorNode [(''class:Inner'', InteriorNode [(''member:m()V'', Leaf (2::nat))])])])])
        ''Lpkg/Outer'') = Inr [2]
   \<and> fst (get_matching_rows (InteriorNode [(''package:pkg'', InteriorNode
        [(''class:Foo'', InteriorNode [(''member:m()V'', Leaf 1)]),
         (''class:Outer'', InteriorNode [(''class:Inner'', InteriorNode [(''member:m()V'', Leaf (2::nat))])])])])
        ''Lpkg/Outer$Inner'') = Inr [2]"
proof -
  let ?t = "InteriorNode [(''package:pkg'', InteriorNode [(''class:Foo'',
        InteriorNode [(''member:m()V'', Leaf (1::nat))])])]"
  let ?t' = "InteriorNode [(''package:pkg'', InteriorNode
        [(''class:Foo'', InteriorNode [(''member:m()V'', Leaf 1)]),
         (''class:Outer'', InteriorNode [(''class:Inner'', InteriorNode [(''member:m()V'', Leaf (2::nat))])])])]"
  have n1: "\<forall>x \<in> set ([''pkg''] @ [''Outer''] @ [''Inner'']). CHR ''/'' \<notin> set x \<and> CHR '';'' \<notin> set x"
    by simp
  have n1': "\<forall>x \<in> set ([''pkg''] @ [''Outer'', ''Inner''] @ []). CHR ''/'' \<notin> set x \<and> CHR '';'' \<notin> set x"
    by simp
  have n2: "\<forall>x \<in> set ([''Outer''] @ [''Inner'']). CHR ''$'' \<notin> set x" by simp
  have n2': "\<forall>x \<in> set ([''Outer'', ''Inner''] @ []). CHR ''$'' \<notin> set x" by simp
  have o: "[''Outer''] \<noteq> []" "join ''$'' [''Outer''] \<noteq> ''*''" "join ''$'' [''Outer''] \<noteq> ''**''"
    by simp_all
  have o': "[''Outer'', ''Inner''] \<noteq> []" "join ''$'' [''Outer'', ''Inner''] \<noteq> ''*''"
    "join ''$'' [''Outer'', ''Inner''] \<noteq> ''**''"
    by simp_all
  have m: "\<not> sublist '';->'' ''m()V''" by (simp add: sublist_Cons_right)
  have a: "add ?t (member_signature [''pkg''] ([''Outer''] @ [''Inner'']) ''m()V'') 2 = (Inr (), ?t')"
    unfolding eval_member_signature_Inner by (rule eval_add_Inner_Foo)
  have a': "add ?t (member_signature [''pkg''] ([''Outer'', ''Inner''] @ []) ''m()V'') 2 = (Inr (), ?t')"
    unfolding eval_member_signature_Inner by (rule eval_add_Inner_Foo)
  have d: "distinct_keys ?t" by simp
  from n1 n2 o m a d
  have h: "(\<forall>x \<in> set ([''pkg''] @ [''Outer''] @ [''Inner'']). CHR ''/'' \<notin> set x \<and> CHR '';'' \<notin> set x)
      \<and> (\<forall>x \<in> set ([''Outer''] @ [''Inner'']). CHR ''$'' \<notin> set x)
      \<and> [''Outer''] \<noteq> [] \<and> join ''$'' [''Outer''] \<noteq> ''*'' \<and> join ''$'' [''Outer''] \<noteq> ''**''
      \<and> \<not> sublist '';->'' ''m()V''
      \<and> add ?t (member_signature [''pkg''] ([''Outer''] @ [''Inner'']) ''m()V'') 2 = (Inr (), ?t')
      \<and> distinct_keys ?t"
    by (intro conjI)
  from nested_classes[of "[''pkg'']" "[''Outer'']" "[''Inner'']" "''m()V''" ?t 2 ?t',
      THEN conjunct1, THEN mp, OF h]
  have "fst (get_matching_rows ?t' (class_pattern [''pkg''] [''Outer''])) =
        Inr (map snd (filter (\<lambda>e. prefix (map (\<lambda>x. ''package:'' @ x) [''pkg'']
                                           @ map (\<lambda>x. ''class:'' @ x) [''Outer'']) (fst e))
                       (entries ?t')))"
    by (elim conjE)
  then have 1: "fst (get_matching_rows ?t' ''Lpkg/Outer'') = Inr [2]"
    unfolding eval_member_signature_Inner by simp
  from n1' n2' o' m a' d
  have h': "(\<forall>x \<in> set ([''pkg''] @ [''Outer'', ''Inner''] @ []). CHR ''/'' \<notin> set x \<and> CHR '';'' \<notin> set x)
      \<and> (\<forall>x \<in> set ([''Outer'', ''Inner''] @ []). CHR ''$'' \<notin> set x)
      \<and> [''Outer'', ''Inner''] \<noteq> [] \<and> join ''$'' [''Outer'', ''Inner''] \<noteq> ''*''
      \<and> join ''$'' [''Outer'', ''Inner''] \<noteq> ''**''
      \<and> \<not> sublist '';->'' ''m()V''
      \<and> add ?t (member_signature [''pkg''] ([''Outer'', ''Inner''] @ []) ''m()V'') 2 = (Inr (), ?t')
      \<and> distinct_keys ?t"
    by (intro conjI)
  from nested_classes[of "[''pkg'']" "[''Outer'', ''Inner'']" "[]" "''m()V''" ?t 2 ?t',
      THEN conjunct1, THEN mp, OF h']
  have "fst (get_matching_rows ?t' (class_pattern [''pkg''] [''Outer'', ''Inner''])) =
        Inr (map snd (filter (\<lambda>e. prefix (map (\<lambda>x. ''package:'' @ x) [''pkg'']
                                           @ map (\<lambda>x. ''class:'' @ x) [''Outer'', ''Inner'']) (fst e))
                       (entries ?t')))"
    by (elim conjE)
  then have 2: "fst (get_matching_rows ?t' ''Lpkg/Outer$Inner'') = Inr [2]"
    unfolding eval_member_signature_Inner by simp
  have names: "CHR ''/'' \<notin> set ''pkg'' \<and> CHR '';'' \<notin> set ''pkg''
   \<and> CHR ''/'' \<notin> set ''Outer'' \<and> CHR '';'' \<notin> set ''Outer'' \<and> CHR ''$'' \<notin> set ''Outer''
   \<and> CHR ''/'' \<notin> set ''Inner'' \<and> CHR '';'' \<notin> set ''Inner'' \<and> CHR ''$'' \<notin> set ''Inner''"
    by simp
  from names o m a d 1 2 show ?thesis by blast
qed

text \<open>
  C7. \<open>signature_to_elements\<close> raises exactly when the text after \<open>removeprefix("L")\<close>
  holds \<open>";->"\<close> and what stands before its first occurrence is \<open>*\<close> or \<open>**\<close> or ends in
  \<open>/*\<close> or \<open>/**\<close>; what it raises then is the wildcard-and-member exception. Both \<open>add\<close>
  and \<open>get_matching_rows\<close> raise that exception exactly when \<open>signature_to_elements\<close>
  does, and leave the trie as it is. \<open>get_matching_rows("Lpkg/*;->m()V")\<close> raises it.
\<close>

theorem malformed_pattern:
  "(signature_to_elements s = Inl e \<longleftrightarrow>
      e = MalformedPattern
      \<and> (\<exists>cls rest. removeprefix ''L'' s = cls @ '';->'' @ rest
            \<and> \<not> sublist '';->'' (cls @ '';-'')
            \<and> (cls = ''*'' \<or> cls = ''**'' \<or> suffix ''/*'' cls \<or> suffix ''/**'' cls)))
   \<and> (fst (add (InteriorNode nodes) s v) = Inl MalformedPattern
        \<longleftrightarrow> signature_to_elements s = Inl MalformedPattern)
   \<and> (fst (get_matching_rows (InteriorNode nodes) s) = Inl MalformedPattern
        \<longleftrightarrow> signature_to_elements s = Inl MalformedPattern)
   \<and> (signature_to_elements s = Inl MalformedPattern \<longrightarrow>
        snd (add (InteriorNode nodes) s v) = InteriorNode nodes)
   \<and> fst (get_matching_rows (InteriorNode nodes) ''Lpkg/*;->m()V'') = Inl MalformedPattern"
proof -
  have ex: "signature_to_elements ''Lpkg/*;->m()V'' = Inl MalformedPattern"
    by (simp add: signature_to_elements_def removeprefix_def Let_def)
  have "fst (get_matching_rows (InteriorNode nodes) ''Lpkg/*;->m()V'') = Inl MalformedPattern"
    unfolding gmr_malformed_iff by (rule ex)
  moreover have "snd (add (InteriorNode nodes) s v) = InteriorNode nodes"
    if "signature_to_elements s = Inl MalformedPattern"
    using that by simp
  ultimately show ?thesis
    using malformed_iff[of s e] add_malformed_iff[of nodes s v] gmr_malformed_iff[of nodes s]
    by blast
qed

theorem malformed_pattern_witness:
  "removeprefix ''L'' ''Ljava/lang/**;->x'' = ''java/lang/**'' @ '';->'' @ ''x''
   \<and> \<not> sublist '';->'' (''java/lang/**'' @ '';-'')
   \<and> suffix ''/**'' ''java/lang/**''
   \<and> signature_to_elements ''Ljava/lang/**;->x'' = Inl MalformedPattern
   \<and> fst (add (InteriorNode []) ''Ljava/lang/**;->x'' (7::nat)) = Inl MalformedPattern
   \<and> snd (add (InteriorNode []) ''Ljava/lang/**;->x'' (7::nat)) = InteriorNode []
   \<and> fst (get_matching_rows (InteriorNode [] :: nat node) ''Ljava/lang/**;->x'') = Inl MalformedPattern"
proof -
  have a: "removeprefix ''L'' ''Ljava/lang/**;->x'' = ''java/lang/**'' @ '';->'' @ ''x''"
    by (simp add: removeprefix_def)
  have b: "\<not> sublist '';->'' (''java/lang/**'' @ '';-'')"
    by (simp add: sublist_Cons_right)
  have c: "suffix ''/**'' ''java/lang/**''"
    by (simp add: suffix_def)
  from a b c
    malformed_pattern[of "''Ljava/lang/**;->x''" MalformedPattern "[]" "7::nat"]
  show ?thesis by blast
qed

text \<open>
  C8. When a pattern decomposes and the walk over its elements (without a trailing
  wildcard) comes to an interior node whose dict lacks the next element, then
  \<open>get_matching_rows\<close> returns the empty list, raises nothing and leaves the trie as it
  is. So \<open>"Lnosuch/Pkg"\<close> yields nothing on the empty trie nor on a trie that holds
  \<open>"Lpkg/Foo;->m()V"\<close>, and on the latter neither do the class \<open>"Lpkg/Nope"\<close> and the
  package \<open>"Lpkg/sub/*"\<close>, which are not there. Moreover, on a trie built from the empty
  one by any sequence of \<open>add\<close> calls, a pattern that holds \<open>";->"\<close> at most once never
  makes the walk run into a \<open>Leaf\<close>: \<open>get_matching_rows\<close> raises no \<open>AttributeError\<close>.
\<close>

theorem unmatched_pattern_empty:
  "(signature_to_elements p = Inr elements
      \<and> walked = (if last elements = ''*'' \<or> last elements = ''**''
                   then butlast elements else elements)
      \<and> i < length walked
      \<and> walk (InteriorNode nodes) (take i walked) = Inr (Some (InteriorNode d))
      \<and> map_of d (walked ! i) = None
      \<longrightarrow> get_matching_rows (InteriorNode nodes) p = (Inr [], InteriorNode nodes))
   \<and> fst (get_matching_rows signature_trie ''Lnosuch/Pkg'') = Inr []
   \<and> fst (get_matching_rows (InteriorNode [(''package:pkg'', InteriorNode [(''class:Foo'',
          InteriorNode [(''member:m()V'', Leaf v)])])]) ''Lnosuch/Pkg'') = Inr []
   \<and> fst (get_matching_rows (InteriorNode [(''package:pkg'', InteriorNode [(''class:Foo'',
          InteriorNode [(''member:m()V'', Leaf v)])])]) ''Lpkg/Nope'') = Inr []
   \<and> fst (get_matching_rows (InteriorNode [(''package:pkg'', InteriorNode [(''class:Foo'',
          InteriorNode [(''member:m()V'', Leaf v)])])]) ''Lpkg/sub/*'') = Inr []
   \<and> (add_all signature_trie ops = (t, vs)
        \<and> length (split '';->'' (removeprefix ''L'' q)) \<le> 2
        \<longrightarrow> fst (get_matching_rows t q) \<noteq> Inl AttributeError)"
proof -
  have gen: "get_matching_rows (InteriorNode nodes) p = (Inr [], InteriorNode nodes)"
    if e: "signature_to_elements p = Inr elements"
      and w: "walked = (if last elements = ''*'' \<or> last elements = ''**''
                   then butlast elements else elements)"
      and i: "i < length walked"
      and r: "walk (InteriorNode nodes) (take i walked) = Inr (Some (InteriorNode d))"
      and m: "map_of d (walked ! i) = None"
  proof -
    from i r m have "walk (InteriorNode nodes) walked = Inr None" by (rule walk_missing)
    then show ?thesis using e w by (simp add: Let_def)
  qed
  have 1: "fst (get_matching_rows signature_trie ''Lnosuch/Pkg'') = Inr []"
    unfolding signature_trie_def gmr_rows[OF eval_els_nosuch] by (simp add: rows_Cons)
  have 2: "fst (get_matching_rows (InteriorNode [(''package:pkg'', InteriorNode [(''class:Foo'',
          InteriorNode [(''member:m()V'', Leaf v)])])]) ''Lnosuch/Pkg'') = Inr []"
    unfolding gmr_rows[OF eval_els_nosuch] by (simp add: rows_Cons)
  have 3: "fst (get_matching_rows (InteriorNode [(''package:pkg'', InteriorNode [(''class:Foo'',
          InteriorNode [(''member:m()V'', Leaf v)])])]) ''Lpkg/Nope'') = Inr []"
    unfolding gmr_rows[OF eval_els_Nope] by (simp add: rows_Cons)
  have 4: "fst (get_matching_rows (InteriorNode [(''package:pkg'', InteriorNode [(''class:Foo'',
          InteriorNode [(''member:m()V'', Leaf v)])])]) ''Lpkg/sub/*'') = Inr []"
    unfolding gmr_rows[OF eval_els_sub_star] by (simp add: rows_Cons)
  have 5: "fst (get_matching_rows t q) \<noteq> Inl AttributeError"
    if a: "add_all signature_trie ops = (t, vs)"
      and l: "length (split '';->'' (removeprefix ''L'' q)) \<le> 2"
  proof -
    from a have a': "add_all (InteriorNode []) ops = (t, vs)"
      by (simp add: signature_trie_def)
    from add_all_kind[OF a'] obtain built where t: "t = InteriorNode built" ..
    have "leaves_under_members (fst (add_all (InteriorNode []) ops))"
      by (rule add_all_leaves_under_members) simp
    then have "leaves_under_members (InteriorNode built)" unfolding a' t by simp
    then show ?thesis unfolding t using l by (rule gmr_no_attribute_error)
  qed
  from gen 1 2 3 4 5 show ?thesis by blast
qed

theorem unmatched_pattern_empty_witness:
  "signature_to_elements ''Lpkg/sub/*'' = Inr [''package:pkg'', ''package:sub'', ''*'']
   \<and> [''package:pkg'', ''package:sub''] =
       (if last [''package:pkg'', ''package:sub'', ''*''] = ''*''
           \<or> last [''package:pkg'', ''package:sub'', ''*''] = ''**''
        then butlast [''package:pkg'', ''package:sub'', ''*'']
        else [''package:pkg'', ''package:sub'', ''*''])
   \<and> (1::nat) < length [''package:pkg'', ''package:sub'']
   \<and> walk (InteriorNode [(''package:pkg'', InteriorNode [(''class:Foo'',
          InteriorNode [(''member:m()V'', Leaf (7::nat))])])]) (take 1 [''package:pkg'', ''package:sub''])
       = Inr (Some (InteriorNode [(''class:Foo'', InteriorNode [(''member:m()V'', Leaf 7)])]))
   \<and> map_of [(''class:Foo'', InteriorNode [(''member:m()V'', Leaf (7::nat))])]
         ([''package:pkg'', ''package:sub''] ! 1) = None
   \<and> get_matching_rows (InteriorNode [(''package:pkg'', InteriorNode [(''class:Foo'',
          InteriorNode [(''member:m()V'', Leaf (7::nat))])])]) ''Lpkg/sub/*''
       = (Inr [], InteriorNode [(''package:pkg'', InteriorNode [(''class:Foo'',
          InteriorNode [(''member:m()V'', Leaf 7)])])])
   \<and> add_all (signature_trie :: nat node)
         [(''Lpkg/Foo;->m()V'', 1), (''LBar;->f'', 2), (''Lpkg/Foo'', 3), (''Lpkg/Foo;->m()V'', 4)]
       = (InteriorNode
            [(''package:pkg'', InteriorNode [(''class:Foo'', InteriorNode [(''member:m()V'', Leaf 1)])]),
             (''class:Bar'', InteriorNode [(''member:f'', Leaf 2)])],
          [1, 2])
   \<and> length (split '';->'' (removeprefix ''L'' ''LBar;->g'')) \<le> 2
   \<and> fst (get_matching_rows (InteriorNode
            [(''package:pkg'', InteriorNode [(''class:Foo'', InteriorNode [(''member:m()V'', Leaf 1)])]),
             (''class:Bar'', InteriorNode [(''member:f'', Leaf (2::nat))])]) ''LBar;->g'')
       \<noteq> Inl AttributeError"
proof -
  have e: "signature_to_elements ''Lpkg/sub/*'' = Inr [''package:pkg'', ''package:sub'', ''*'']"
    by (rule eval_els_sub_star)
  have w: "[''package:pkg'', ''package:sub''] =
       (if last [''package:pkg'', ''package:sub'', ''*''] = ''*''
           \<or> last [''package:pkg'', ''package:sub'', ''*''] = ''**''
        then butlast [''package:pkg'', ''package:sub'', ''*'']
        else [''package:pkg'', ''package:sub'', ''*''])"
    by simp
  have i: "(1::nat) < length [''package:pkg'', ''package:sub'']" by simp
  have r: "walk (InteriorNode [(''package:pkg'', InteriorNode [(''class:Foo'',
          InteriorNode [(''member:m()V'', Leaf (7::nat))])])]) (take 1 [''package:pkg'', ''package:sub''])
       = Inr (Some (InteriorNode [(''class:Foo'', InteriorNode [(''member:m()V'', Leaf 7)])]))"
    by simp
  have m: "map_of [(''class:Foo'', InteriorNode [(''member:m()V'', Leaf (7::nat))])]
         ([''package:pkg'', ''package:sub''] ! 1) = None"
    by simp
  have l: "length (split '';->'' (removeprefix ''L'' ''LBar;->g'')) \<le> 2"
    by (simp add: removeprefix_def)
  from e w i r m
    unmatched_pattern_empty[of "''Lpkg/sub/*''" "[''package:pkg'', ''package:sub'', ''*'']"
      "[''package:pkg'', ''package:sub'']" 1
      "[(''package:pkg'', InteriorNode [(''class:Foo'', InteriorNode [(''member:m()V'', Leaf (7::nat))])])]"
      "[(''class:Foo'', InteriorNode [(''member:m()V'', Leaf (7::nat))])]" 7
      "[(''Lpkg/Foo;->m()V'', 1), (''LBar;->f'', 2), (''Lpkg/Foo'', 3), (''Lpkg/Foo;->m()V'', 4)]"
      "InteriorNode
            [(''package:pkg'', InteriorNode [(''class:Foo'', InteriorNode [(''member:m()V'', Leaf 1)])]),
             (''class:Bar'', InteriorNode [(''member:f'', Leaf (2::nat))])]"
      "[1, 2]" "''LBar;->g''"]
    eval_add_all l
  show ?thesis by blast
qed

text \<open>
  C9. With the nodes as objects in a store and \<open>values\<close> as the list object that
  \<open>append_values\<close> appends to: whenever \<open>get_matching_rows\<close> returns, every object that
  was in the store before the call is in it unchanged afterwards; the only object written
  is the list that \<open>values\<close> has just created. When the store holds the trie \<open>t\<close> at the
  address of the root, the call returns (given fuel for the depth of the trie) the rows
  of the functional \<open>get_matching_rows\<close>, the store still holds \<open>t\<close> at that address, and
  the same query issued again returns the same rows (the same list, hence the same set).
\<close>

theorem match_never_mutates:
  "(get_matching_rows_h fuel h r p = Some (res, h') \<longrightarrow> take (length h) h' = h)
   \<and> (repr h r t \<and> height t \<le> fuel \<longrightarrow>
        (\<exists>h1 h2. get_matching_rows_h fuel h r p = Some (fst (get_matching_rows t p), h1)
           \<and> take (length h) h1 = h
           \<and> repr h1 r t
           \<and> get_matching_rows_h fuel h1 r p = Some (fst (get_matching_rows t p), h2)
           \<and> take (length h1) h2 = h1))"
proof -
  have 1: "take (length h) h' = h" if "get_matching_rows_h fuel h r p = Some (res, h')"
    using that by (rule get_matching_rows_h_frame)
  have 2: "\<exists>h1 h2. get_matching_rows_h fuel h r p = Some (fst (get_matching_rows t p), h1)
           \<and> take (length h) h1 = h
           \<and> repr h1 r t
           \<and> get_matching_rows_h fuel h1 r p = Some (fst (get_matching_rows t p), h2)
           \<and> take (length h1) h2 = h1"
    if r: "repr h r t" and f: "height t \<le> fuel"
  proof -
    from get_matching_rows_h_refines[OF r f] obtain h1 where
      a: "get_matching_rows_h fuel h r p = Some (fst (get_matching_rows t p), h1)" ..
    from a have t1: "take (length h) h1 = h" by (rule get_matching_rows_h_frame)
    with r have r1: "repr h1 r t" by (rule repr_extend)
    from get_matching_rows_h_refines[OF r1 f] obtain h2 where
      b: "get_matching_rows_h fuel h1 r p = Some (fst (get_matching_rows t p), h2)" ..
    from b have t2: "take (length h1) h2 = h1" by (rule get_matching_rows_h_frame)
    from a t1 r1 b t2 show ?thesis by blast
  qed
  from 1 2 show ?thesis by blast
qed

theorem match_never_mutates_witness:
  "get_matching_rows_h 4 [LeafObj (7::nat), InteriorObj [(''member:m()V'', 0)],
         InteriorObj [(''class:Foo'', 1)], InteriorObj [(''package:pkg'', 2)]] 3 ''Lpkg/*''
   = Some (Inr [7], [LeafObj 7, InteriorObj [(''member:m()V'', 0)],
         InteriorObj [(''class:Foo'', 1)], InteriorObj [(''package:pkg'', 2)], ListObj [[7]]])
   \<and> take (length [LeafObj (7::nat), InteriorObj [(''member:m()V'', 0)],
         InteriorObj [(''class:Foo'', 1)], InteriorObj [(''package:pkg'', 2)]])
        [LeafObj 7, InteriorObj [(''member:m()V'', 0)],
         InteriorObj [(''class:Foo'', 1)], InteriorObj [(''package:pkg'', 2)], ListObj [[7]]]
      = [LeafObj 7, InteriorObj [(''member:m()V'', 0)],
         InteriorObj [(''class:Foo'', 1)], InteriorObj [(''package:pkg'', 2)]]
   \<and> repr [LeafObj (7::nat), InteriorObj [(''member:m()V'', 0)],
         InteriorObj [(''class:Foo'', 1)], InteriorObj [(''package:pkg'', 2)]] 3
     (InteriorNode [(''package:pkg'', InteriorNode [(''class:Foo'',
        InteriorNode [(''member:m()V'', Leaf 7)])])])
   \<and> height (InteriorNode [(''package:pkg'', InteriorNode [(''class:Foo'',
        InteriorNode [(''member:m()V'', Leaf (7::nat))])])]) \<le> 4
   \<and> (\<exists>h1 h2. get_matching_rows_h 4 [LeafObj (7::nat), InteriorObj [(''member:m()V'', 0)],
         InteriorObj [(''class:Foo'', 1)], InteriorObj [(''package:pkg'', 2)]] 3 ''Lpkg/*''
         = Some (fst (get_matching_rows (InteriorNode [(''package:pkg'', InteriorNode [(''class:Foo'',
             InteriorNode [(''member:m()V'', Leaf 7)])])]) ''Lpkg/*''), h1)
        \<and> get_matching_rows_h 4 h1 3 ''Lpkg/*''
         = Some (fst (get_matching_rows (InteriorNode [(''package:pkg'', InteriorNode [(''class:Foo'',
             InteriorNode [(''member:m()V'', Leaf 7)])])]) ''Lpkg/*''), h2))"
proof -
  let ?h = "[LeafObj (7::nat), InteriorObj [(''member:m()V'', 0)],
         InteriorObj [(''class:Foo'', 1)], InteriorObj [(''package:pkg'', 2)]]"
  let ?t = "InteriorNode [(''package:pkg'', InteriorNode [(''class:Foo'',
        InteriorNode [(''member:m()V'', Leaf (7::nat))])])]"
  have ht: "height ?t \<le> 4" by simp
  from eval_gmr_h_Foo eval_repr_Foo ht
    match_never_mutates[of 4 ?h 3 "''Lpkg/*''" "Inr [7]" "?h @ [ListObj [[7]]]" ?t]
  show ?thesis by auto
qed

text \<open>
  C10. The bare patterns \<open>"**"\<close>, \<open>"L**"\<close> and \<open>"*"\<close> decompose into a lone wildcard, so
  nothing is walked and the root itself is collected. On every trie \<open>"**"\<close> and
  \<open>"L**"\<close> yield all the values the trie holds, and \<open>"*"\<close> yields the values under the
  children of the root whose key is not a \<open>package:\<close> key. On a trie built from the empty
  one by any sequence of \<open>add\<close> calls, the values \<open>"**"\<close> yields are, counted with
  multiplicity, the values of the calls that returned normally, and the children of the
  root that \<open>"*"\<close> collects are those with a \<open>class:\<close> key.
\<close>

theorem root_wildcards:
  "fst (get_matching_rows (InteriorNode nodes :: 'v node) ''**'') = Inr (subtree_values (InteriorNode nodes))
   \<and> fst (get_matching_rows (InteriorNode nodes) ''L**'') = Inr (subtree_values (InteriorNode nodes))
   \<and> fst (get_matching_rows (InteriorNode nodes) ''*'') =
       Inr (concat (map (\<lambda>item. subtree_values (snd item))
              (filter (\<lambda>item. \<not> startswith (fst item) ''package:'') nodes)))
   \<and> (add_all signature_trie ops = (t :: 'v node, vs) \<longrightarrow>
        (\<exists>built rs. t = InteriorNode built
           \<and> fst (get_matching_rows t ''**'') = Inr rs
           \<and> fst (get_matching_rows t ''L**'') = Inr rs
           \<and> mset rs = mset vs
           \<and> fst (get_matching_rows t ''*'') =
               Inr (concat (map (\<lambda>item. subtree_values (snd item))
                      (filter (\<lambda>item. startswith (fst item) ''class:'') built)))))"
proof -
  have "\<exists>built rs. t = InteriorNode built
           \<and> fst (get_matching_rows t ''**'') = Inr rs
           \<and> fst (get_matching_rows t ''L**'') = Inr rs
           \<and> mset rs = mset vs
           \<and> fst (get_matching_rows t ''*'') =
               Inr (concat (map (\<lambda>item. subtree_values (snd item))
                      (filter (\<lambda>item. startswith (fst item) ''class:'') built)))"
    if a: "add_all signature_trie ops = (t :: 'v node, vs)"
  proof -
    from a have a': "add_all (InteriorNode []) ops = (t, vs)"
      by (simp add: signature_trie_def)
    from add_all_kind[OF a'] obtain built where t: "t = InteriorNode built" ..
    have "mset (subtree_values t) = mset (subtree_values (InteriorNode [] :: 'v node)) + mset vs"
      using a' by (rule add_all_mset)
    then have m: "mset (subtree_values (InteriorNode built)) = mset vs"
      unfolding t by (simp add: subtree_values_empty)
    have "\<forall>k \<in> fst ` set built. startswith k ''package:'' \<or> startswith k ''class:''"
      using a'[unfolded t] by (rule add_all_root_keys) simp
    then have f: "filter (\<lambda>item. \<not> startswith (fst item) ''package:'') built
      = filter (\<lambda>item. startswith (fst item) ''class:'') built"
      by (rule filter_root_classes)
    show ?thesis
      using t m gmr_star2[of built] gmr_Lstar2[of built] gmr_star1[of built] unfolding f
      by blast
  qed
  then show ?thesis
    using gmr_star2[of nodes] gmr_Lstar2[of nodes] gmr_star1[of nodes] by blast
qed

theorem root_wildcards_witness:
  "add_all (signature_trie :: nat node)
     [(''Lpkg/Foo;->m()V'', 1), (''LBar;->f'', 2), (''Lpkg/Foo'', 3), (''Lpkg/Foo;->m()V'', 4)]
   = (InteriorNode
        [(''package:pkg'', InteriorNode [(''class:Foo'', InteriorNode [(''member:m()V'', Leaf 1)])]),
         (''class:Bar'', InteriorNode [(''member:f'', Leaf 2)])],
      [1, 2])
   \<and> (\<exists>rs. fst (get_matching_rows (InteriorNode
        [(''package:pkg'', InteriorNode [(''class:Foo'', InteriorNode [(''member:m()V'', Leaf 1)])]),
         (''class:Bar'', InteriorNode [(''member:f'', Leaf (2::nat))])]) ''**'') = Inr rs
        \<and> mset rs = mset [1, 2])"
  using eval_add_all
    root_wildcards[of "[]" "[(''Lpkg/Foo;->m()V'', 1), (''LBar;->f'', 2), (''Lpkg/Foo'', 3), (''Lpkg/Foo;->m()V'', 4)]"
      "InteriorNode
        [(''package:pkg'', InteriorNode [(''class:Foo'', InteriorNode [(''member:m()V'', Leaf 1)])]),
         (''class:Bar'', InteriorNode [(''member:f'', Leaf (2::nat))])]" "[1, 2]"]
  by blast

end
